theory Spec2Isabelle
  imports Complex_Main "HOL-Library.Multiset"
begin

section \<open>Arithmetic of the workload functions\<close>

text \<open>
  The two workload functions of \<^verbatim>\<open>omp_01_amdahl.cpp\<close> compute on \<^verbatim>\<open>double\<close>. The
  operations they use are collected in a record, so that the loops are modelled once for
  every carrier: \<open>dzero\<close> is the literal \<^verbatim>\<open>0.0\<close>, \<open>dadd\<close> the addition behind \<^verbatim>\<open>+=\<close>,
  \<open>dof_int\<close> the conversion of the \<^verbatim>\<open>int\<close> index in \<^verbatim>\<open>i * 1e-6\<close>, \<open>dmul\<close> that
  product, \<open>dmicro\<close> the literal \<^verbatim>\<open>1e-6\<close>, \<open>dsin\<close> and \<open>dcos\<close> the calls of
  \<^verbatim>\<open>std::sin\<close> and \<^verbatim>\<open>std::cos\<close>. Nothing is assumed of a carrier; \<open>real_arith\<close> is the
  exact one.
\<close>

record 'd arith =
  dzero :: 'd
  dadd :: "'d \<Rightarrow> 'd \<Rightarrow> 'd"
  dmul :: "'d \<Rightarrow> 'd \<Rightarrow> 'd"
  dof_int :: "int \<Rightarrow> 'd"
  dmicro :: 'd
  dsin :: "'d \<Rightarrow> 'd"
  dcos :: "'d \<Rightarrow> 'd"

definition real_arith :: "real arith" where
  "real_arith =
     \<lparr>dzero = 0, dadd = (+), dmul = (*), dof_int = real_of_int,
      dmicro = 1 / 1000000, dsin = sin, dcos = cos\<rparr>"


text \<open>\<^verbatim>\<open>std::sin(i * 1e-6)\<close> and \<^verbatim>\<open>std::cos(i * 1e-6)\<close>.\<close>

definition sin_term :: "'d arith \<Rightarrow> int \<Rightarrow> 'd" where
  "sin_term A i = dsin A (dmul A (dof_int A i) (dmicro A))"

definition cos_term :: "'d arith \<Rightarrow> int \<Rightarrow> 'd" where
  "cos_term A i = dcos A (dmul A (dof_int A i) (dmicro A))"

subsection \<open>Floating point\<close>




definition tolerance :: "real \<Rightarrow> int \<Rightarrow> nat \<Rightarrow> real" where
  "tolerance u n T = (1 + u) ^ (nat n + T) - 1"



section \<open>Loops\<close>

text \<open>
  \<^verbatim>\<open>for (int i = lo; i < hi; i++) s = body(i, s);\<close>
  The index is an \<^verbatim>\<open>int\<close>; since \<open>i < hi\<close> holds whenever \<open>i\<close> is incremented, the
  increment never leaves the range of \<^verbatim>\<open>int\<close> and the mathematical integers model it.
\<close>

function for_loop :: "(int \<Rightarrow> 's \<Rightarrow> 's) \<Rightarrow> int \<Rightarrow> int \<Rightarrow> 's \<Rightarrow> 's" where
  "for_loop body i hi s = (if i < hi then for_loop body (i + 1) hi (body i s) else s)"
  by pat_completeness auto
termination
  by (relation "measure (\<lambda>(body, i, hi, s). nat (hi - i))") auto

declare for_loop.simps [simp del]

text \<open>
  \<^verbatim>\<open>serial_work\<close>, lines 20 to 26: one thread, one accumulator, the loop from \<open>0\<close>.
  (\<^verbatim>\<open>volatile\<close> only keeps the compiler from removing the loop.)
\<close>

definition serial_work :: "'d arith \<Rightarrow> int \<Rightarrow> 'd" where
  "serial_work A n = for_loop (\<lambda>i s. dadd A s (sin_term A i)) 0 n (dzero A)"

section \<open>The static schedule\<close>

text \<open>
  Modelled from the spec: the runtime that implements \<^verbatim>\<open>schedule(static)\<close> is not part of
  the sources. The spec asks for static range partitioning where each worker gets a
  contiguous, roughly equal-sized subrange, assigned once. With \<open>c\<close> iterations and \<open>T\<close>
  workers, \<open>q = c div T\<close> and \<open>r = c mod T\<close>, the first \<open>r\<close> workers get \<open>q + 1\<close>
  consecutive indices each and the others \<open>q\<close>; worker \<open>t\<close> runs the indices from
  \<open>chunk_lo n T t\<close> up to, not including, \<open>chunk_hi n T t\<close>. A loop bound \<open>n \<le> 0\<close> has no
  iterations.
\<close>

definition chunk_lo :: "int \<Rightarrow> nat \<Rightarrow> nat \<Rightarrow> int" where
  "chunk_lo n T t =
     (let c = max 0 n; q = c div int T; r = c mod int T
      in if int t < r then (q + 1) * int t else q * int t + r)"

definition chunk_hi :: "int \<Rightarrow> nat \<Rightarrow> nat \<Rightarrow> int" where
  "chunk_hi n T t =
     (let c = max 0 n; q = c div int T; r = c mod int T
      in if int t < r then (q + 1) * int t + (q + 1) else q * int t + r + q)"

text \<open>
  \<^verbatim>\<open>parallel_work\<close>, lines 28 to 35. Under \<^verbatim>\<open>reduction(+:s)\<close> every worker has a private
  copy of \<open>s\<close> that starts at \<open>0.0\<close> and accumulates the worker's own subrange; at the
  end the private copies are added to the original \<open>s\<close>. The order in which they are added
  is the runtime's choice: it is the parameter \<open>order\<close>, a list of worker numbers.
\<close>

definition partial_sum :: "'d arith \<Rightarrow> int \<Rightarrow> nat \<Rightarrow> nat \<Rightarrow> 'd" where
  "partial_sum A n T t =
     for_loop (\<lambda>i s. dadd A s (cos_term A i)) (chunk_lo n T t) (chunk_hi n T t) (dzero A)"

definition parallel_work :: "'d arith \<Rightarrow> nat \<Rightarrow> nat list \<Rightarrow> int \<Rightarrow> 'd" where
  "parallel_work A T order n = foldl (dadd A) (dzero A) (map (partial_sum A n T) order)"

text \<open>The orders in which \<open>T\<close> workers can be combined: each worker once.\<close>

definition team_order :: "nat \<Rightarrow> nat list \<Rightarrow> bool" where
  "team_order T order = (distinct order \<and> set order = {..<T})"

text \<open>
  The indices one worker of a statically scheduled loop runs through, in the order in which
  it does: the loop of \<open>partial_sum\<close> with a body that records its index.
\<close>

definition worker_indices :: "int \<Rightarrow> nat \<Rightarrow> nat \<Rightarrow> int list" where
  "worker_indices n T t =
     for_loop (\<lambda>i vs. vs @ [i]) (chunk_lo n T t) (chunk_hi n T t) []"

text \<open>
  The carrier that records instead of computing: a value is the list of the indices that
  went into it, the term of index \<open>i\<close> is \<open>[i]\<close>, and adding is appending. Run on it, the
  workload functions return the indices whose terms they have added, in the order of the
  additions.
\<close>

definition idx_arith :: "int list arith" where
  "idx_arith =
     \<lparr>dzero = [], dadd = (@), dmul = (\<lambda>a b. a), dof_int = (\<lambda>i. [i]),
      dmicro = [], dsin = (\<lambda>a. a), dcos = (\<lambda>a. a)\<rparr>"

(*LEMMAS*)

section \<open>The Amdahl run\<close>

text \<open>
  \<^verbatim>\<open>main\<close> of \<^verbatim>\<open>omp_01_amdahl.cpp\<close>, lines 37 to 60: the numbers it prints, for a team of
  \<open>T\<close> workers (the wall time is treated with the events below).
\<close>

definition Nserial :: int where
  "Nserial = 50000000"

definition Npar :: int where
  "Npar = 250000000"

record 'd amdahl_report =
  rep_threads :: nat
  rep_a :: 'd
  rep_b :: 'd

definition amdahl_main :: "'d arith \<Rightarrow> nat \<Rightarrow> nat list \<Rightarrow> 'd amdahl_report" where
  "amdahl_main A T order =
     \<lparr>rep_threads = T, rep_a = serial_work A Nserial, rep_b = parallel_work A T order Npar\<rparr>"

section \<open>What a run does, in order\<close>

text \<open>
  The statements of the two benchmark programs' \<^verbatim>\<open>main\<close>, in program order, as seen from
  the thread that runs \<^verbatim>\<open>main\<close>: entering a parallel region (\<open>Fork\<close>), leaving it after
  the barrier at its end (\<open>Join\<close>), reading the clock, calling \<^verbatim>\<open>serial_work\<close>, printing
  the result line.
\<close>

datatype region = CountThreads | ParallelFor | Simulator

datatype event = Fork region | Join region | ClockRead | SerialCall | Report

text \<open>
  \<^verbatim>\<open>omp_01_amdahl.cpp\<close>: the region of lines 43 to 45 that reads the number of threads,
  \<open>t0\<close> (line 47), \<^verbatim>\<open>serial_work\<close> (line 49), \<^verbatim>\<open>parallel_work\<close> with its
  \<^verbatim>\<open>parallel for\<close> (line 50, region at line 30), \<open>t1\<close> (line 52), the output (line 55).
\<close>

definition amdahl_events :: "event list" where
  "amdahl_events =
     [Fork CountThreads, Join CountThreads, ClockRead, SerialCall,
      Fork ParallelFor, Join ParallelFor, ClockRead, Report]"

text \<open>
  \<^verbatim>\<open>omp_02_mutex_bottleneck.cpp\<close>: \<open>t0\<close> (line 26), the region of lines 28 to 46,
  \<open>t1\<close> (line 48), the output (line 51).
\<close>

definition mutex_events :: "event list" where
  "mutex_events = [ClockRead, Fork Simulator, Join Simulator, ClockRead, Report]"

fun is_fork :: "event \<Rightarrow> bool" where
  "is_fork (Fork r) = True"
| "is_fork e = False"

fun is_region_event :: "event \<Rightarrow> bool" where
  "is_region_event (Fork r) = True"
| "is_region_event (Join r) = True"
| "is_region_event e = False"

definition regions_entered :: "event list \<Rightarrow> nat" where
  "regions_entered evs = length (filter is_fork evs)"

text \<open>
  The state machine of a run, in the words of the spec:
  \<open>NotStarted \<rightarrow> Running \<rightarrow> Joined \<rightarrow> Reported\<close>. Reading the clock and the serial call
  leave the state as it is. With \<open>reenter = False\<close> the machine is the spec's: a region
  entered after \<open>Joined\<close> is refused. With \<open>reenter = True\<close> a joined run may enter a
  further region.
\<close>

datatype run_state = NotStarted | Running | Joined | Reported

fun run_step :: "bool \<Rightarrow> run_state \<Rightarrow> event \<Rightarrow> run_state option" where
  "run_step reenter NotStarted (Fork r) = Some Running"
| "run_step reenter Running (Join r) = Some Joined"
| "run_step reenter Joined (Fork r) = (if reenter then Some Running else None)"
| "run_step reenter Joined Report = Some Reported"
| "run_step reenter s ClockRead = Some s"
| "run_step reenter s SerialCall = Some s"
| "run_step reenter s e = None"

fun run_trace :: "bool \<Rightarrow> run_state \<Rightarrow> event list \<Rightarrow> run_state option" where
  "run_trace reenter s [] = Some s"
| "run_trace reenter s (e # evs) =
     (case run_step reenter s e of None \<Rightarrow> None | Some s' \<Rightarrow> run_trace reenter s' evs)"

text \<open>
  The events before the first reading of the clock, and those between the first and the
  second reading: the part of the run that the reported wall time covers.
\<close>

definition before_timer :: "event list \<Rightarrow> event list" where
  "before_timer evs = takeWhile (\<lambda>e. e \<noteq> ClockRead) evs"

definition timed_span :: "event list \<Rightarrow> event list" where
  "timed_span evs =
     takeWhile (\<lambda>e. e \<noteq> ClockRead) (tl (dropWhile (\<lambda>e. e \<noteq> ClockRead) evs))"

definition timer_spans_regions :: "event list \<Rightarrow> bool" where
  "timer_spans_regions evs =
     (filter is_region_event (timed_span evs) = filter is_region_event evs)"

subsection \<open>The clock of a run\<close>

text \<open>
  The clock of a run. Both programs read \<^verbatim>\<open>std::chrono::high_resolution_clock::now()\<close>
  (\<^verbatim>\<open>omp_01_amdahl.cpp\<close> lines 47 and 52, \<^verbatim>\<open>omp_02_mutex_bottleneck.cpp\<close> lines 26 and
  48). Of the clocks of \<^verbatim>\<open><chrono>\<close> the library promises readings that never decrease
  (\<^verbatim>\<open>is_steady\<close>) for \<^verbatim>\<open>steady_clock\<close> alone; \<^verbatim>\<open>high_resolution_clock\<close> may be another
  name of \<^verbatim>\<open>system_clock\<close>, which can be set back.
\<close>

datatype clock_id = SteadyClock | SystemClock | HighResolutionClock

definition amdahl_clock :: clock_id where
  "amdahl_clock = HighResolutionClock"

definition mutex_clock :: clock_id where
  "mutex_clock = HighResolutionClock"

fun monotonic_by_contract :: "clock_id \<Rightarrow> bool" where
  "monotonic_by_contract SteadyClock = True"
| "monotonic_by_contract SystemClock = False"
| "monotonic_by_contract HighResolutionClock = False"

text \<open>
  The readings of a run: \<open>reading k\<close> is what the run's clock shows when the event at
  position \<open>k\<close> of the run happens. The elapsed time that a run reports is the difference
  \<^verbatim>\<open>t1 - t0\<close> of the readings at its two \<open>ClockRead\<close> events (lines 52 and 53, lines 48 and
  49). A clock is monotonic when its readings never decrease from one event to a later one.
\<close>

fun clock_positions :: "nat \<Rightarrow> event list \<Rightarrow> nat list" where
  "clock_positions k [] = []"
| "clock_positions k (e # evs) =
     (if e = ClockRead then k # clock_positions (Suc k) evs else clock_positions (Suc k) evs)"

definition elapsed :: "(nat \<Rightarrow> real) \<Rightarrow> event list \<Rightarrow> real option" where
  "elapsed reading evs =
     (case clock_positions 0 evs of
        p0 # p1 # ps \<Rightarrow> Some (reading p1 - reading p0)
      | _ \<Rightarrow> None)"

definition position :: "event \<Rightarrow> event list \<Rightarrow> nat" where
  "position e evs = length (takeWhile (\<lambda>x. x \<noteq> e) evs)"

definition monotonic :: "(nat \<Rightarrow> real) \<Rightarrow> bool" where
  "monotonic reading = (\<forall>j k. j \<le> k \<longrightarrow> reading j \<le> reading k)"

section \<open>The probe run\<close>

text \<open>
  \<^verbatim>\<open>omp_00_warmup.cpp\<close>, lines 14 to 24. Every worker of the region reads its number and
  the size of the team (lines 17 and 18), enters the critical section (line 20), prints
  its line (line 21) and leaves the critical section; the region ends when all workers are
  done. The workers interleave: a schedule is the list of the workers that take the next
  step, in order, and a worker that waits for the critical section stays where it is.
\<close>

datatype hello_pc = H_Start | H_Ready nat nat | H_Critical nat nat | H_Done

record hello_state =
  h_pcs :: "hello_pc list"
  h_slot :: "nat option"
  h_out :: "(nat \<times> nat) list"

definition hello_init :: "nat \<Rightarrow> hello_state" where
  "hello_init T = \<lparr>h_pcs = replicate T H_Start, h_slot = None, h_out = []\<rparr>"

definition hello_step :: "nat \<Rightarrow> hello_state \<Rightarrow> hello_state" where
  "hello_step w s =
     (if w < length (h_pcs s) then
        (case h_pcs s ! w of
           H_Start \<Rightarrow> s\<lparr>h_pcs := (h_pcs s)[w := H_Ready w (length (h_pcs s))]\<rparr>
         | H_Ready tid nthr \<Rightarrow>
             (if h_slot s = None
              then s\<lparr>h_pcs := (h_pcs s)[w := H_Critical tid nthr], h_slot := Some w\<rparr>
              else s)
         | H_Critical tid nthr \<Rightarrow>
             s\<lparr>h_pcs := (h_pcs s)[w := H_Done], h_slot := None,
               h_out := h_out s @ [(tid, nthr)]\<rparr>
         | H_Done \<Rightarrow> s)
      else s)"

fun hello_run :: "nat list \<Rightarrow> hello_state \<Rightarrow> hello_state" where
  "hello_run [] s = s"
| "hello_run (w # ws) s = hello_run ws (hello_step w s)"

definition hello_final :: "hello_state \<Rightarrow> bool" where
  "hello_final s = list_all (\<lambda>p. p = H_Done) (h_pcs s)"

fun hello_in_critical :: "hello_pc \<Rightarrow> bool" where
  "hello_in_critical (H_Critical tid nthr) = True"
| "hello_in_critical p = False"

text \<open>The text of one call of \<^verbatim>\<open>printf("Hello from thread %d of %d\n", tid, nt)\<close>.\<close>

fun dec :: "nat \<Rightarrow> string" where
  "dec n = (if n < 10 then [char_of (48 + n)] else dec (n div 10) @ [char_of (48 + n mod 10)])"

declare dec.simps [simp del]

definition hello_line :: "nat \<times> nat \<Rightarrow> string" where
  "hello_line p =
     ''Hello from thread '' @ dec (fst p) @ '' of '' @ dec (snd p) @ [CHR 0x0A]"

definition hello_text :: "hello_state \<Rightarrow> string list" where
  "hello_text s = map hello_line (h_out s)"

text \<open>The schedule in which the workers run one after the other, three steps each.\<close>

definition hello_in_turn :: "nat \<Rightarrow> nat list" where
  "hello_in_turn T = concat (map (\<lambda>w. [w, w, w]) [0..<T])"

subsection \<open>What holds in every state of the probe run\<close>

text \<open>
  What holds in every state of a probe run with \<open>T\<close> workers: a worker past line 18 knows
  its own number and \<open>T\<close>; the critical section is held by exactly the worker that is
  inside; the workers that have printed are the workers that are done, each once, each with
  \<open>T\<close> as the size of the team.
\<close>

fun hello_pc_ok :: "nat \<Rightarrow> nat option \<Rightarrow> nat \<Rightarrow> hello_pc \<Rightarrow> bool" where
  "hello_pc_ok T sl w H_Start = (sl \<noteq> Some w)"
| "hello_pc_ok T sl w (H_Ready tid nthr) = (tid = w \<and> nthr = T \<and> sl \<noteq> Some w)"
| "hello_pc_ok T sl w (H_Critical tid nthr) = (tid = w \<and> nthr = T \<and> sl = Some w)"
| "hello_pc_ok T sl w H_Done = (sl \<noteq> Some w)"

definition hello_inv :: "nat \<Rightarrow> hello_state \<Rightarrow> bool" where
  "hello_inv T s =
     (length (h_pcs s) = T
      \<and> (\<forall>w<T. hello_pc_ok T (h_slot s) w (h_pcs s ! w))
      \<and> distinct (map fst (h_out s))
      \<and> set (map fst (h_out s)) = {w. w < T \<and> h_pcs s ! w = H_Done}
      \<and> (\<forall>p\<in>set (h_out s). snd p = T))"

text \<open>The state of the probe with a team of \<open>T\<close> workers after the steps \<open>sched\<close>.\<close>

definition probe_run :: "nat \<Rightarrow> nat list \<Rightarrow> hello_state" where
  "probe_run T sched = hello_run sched (hello_init T)"

text \<open>Reading a decimal numeral back.\<close>

definition undec :: "string \<Rightarrow> nat" where
  "undec cs = foldl (\<lambda>a c. 10 * a + (of_char c - 48)) 0 cs"

section \<open>The critical-resource simulator\<close>

text \<open>
  \<^verbatim>\<open>main\<close> of \<^verbatim>\<open>omp_02_mutex_bottleneck.cpp\<close>, lines 20 to 57, with its three constants.
  Durations and the clock are in milliseconds.
\<close>

record sim_cfg =
  iters :: int
  parallel_ms :: real
  serial_ms :: real

definition main_cfg :: sim_cfg where
  "main_cfg = \<lparr>iters = 200, parallel_ms = 2, serial_ms = 5\<rparr>"

text \<open>
  Where a worker of the region (lines 28 to 46) stands:
  \<^item> \<open>S_Single\<close>: at \<^verbatim>\<open>#pragma omp single\<close> (line 30);
  \<^item> \<open>S_Barrier\<close>: at the barrier that ends the \<^verbatim>\<open>single\<close>;
  \<^item> \<open>S_Loop i\<close>: at the head of the loop of line 34, about to test index \<open>i\<close> against the
    end of the worker's subrange;
  \<^item> \<open>S_ParSleep i wake\<close>: in the \<^verbatim>\<open>sleep_for\<close> of line 36, which returns no earlier than
    at time \<open>wake\<close>;
  \<^item> \<open>S_Wait i\<close>: at \<^verbatim>\<open>#pragma omp critical\<close> (line 40);
  \<^item> \<open>S_Crit i wake\<close>: inside the critical section, in the \<^verbatim>\<open>sleep_for\<close> of line 42;
  \<^item> \<open>S_Done\<close>: at the barrier that ends the loop and the region.

  \<open>visited\<close> records the indices whose iteration the worker has completed; the program
  does not store it.
\<close>

datatype sim_pc =
  S_Single | S_Barrier | S_Loop int | S_ParSleep int real | S_Wait int | S_Crit int real | S_Done

record sim_worker =
  pc :: sim_pc
  visited :: "int list"

record sim_state =
  workers :: "sim_worker list"
  slot :: "nat option"
  nthreads :: nat
  single_done :: bool
  now :: real

datatype sim_action = Step nat | Tick real

definition sim_init :: "nat \<Rightarrow> real \<Rightarrow> sim_state" where
  "sim_init T t0 =
     \<lparr>workers = replicate T \<lparr>pc = S_Single, visited = []\<rparr>, slot = None, nthreads = 0,
      single_done = False, now = t0\<rparr>"

definition set_pc :: "nat \<Rightarrow> sim_pc \<Rightarrow> sim_state \<Rightarrow> sim_state" where
  "set_pc w p s = s\<lparr>workers := (workers s)[w := (workers s ! w)\<lparr>pc := p\<rparr>]\<rparr>"

definition finish_iteration :: "nat \<Rightarrow> int \<Rightarrow> sim_state \<Rightarrow> sim_state" where
  "finish_iteration w i s =
     s\<lparr>workers := (workers s)[w := \<lparr>pc = S_Loop (i + 1), visited = visited (workers s ! w) @ [i]\<rparr>],
       slot := None\<rparr>"

text \<open>
  One step of worker \<open>w\<close>. A worker that cannot go on (at a barrier others have not reached,
  asleep, or in front of the occupied critical section) stays where it is.
\<close>

definition sim_step :: "sim_cfg \<Rightarrow> nat \<Rightarrow> sim_state \<Rightarrow> sim_state" where
  "sim_step cfg w s =
     (if w < length (workers s) then
        (case pc (workers s ! w) of
           S_Single \<Rightarrow>
             (if single_done s then set_pc w S_Barrier s
              else (set_pc w S_Barrier s)\<lparr>nthreads := length (workers s), single_done := True\<rparr>)
         | S_Barrier \<Rightarrow>
             (if list_all (\<lambda>k. pc k \<noteq> S_Single) (workers s)
              then set_pc w (S_Loop (chunk_lo (iters cfg) (length (workers s)) w)) s
              else s)
         | S_Loop i \<Rightarrow>
             (if i < chunk_hi (iters cfg) (length (workers s)) w
              then set_pc w (S_ParSleep i (now s + parallel_ms cfg)) s
              else set_pc w S_Done s)
         | S_ParSleep i wake \<Rightarrow> (if wake \<le> now s then set_pc w (S_Wait i) s else s)
         | S_Wait i \<Rightarrow>
             (if slot s = None
              then (set_pc w (S_Crit i (now s + serial_ms cfg)) s)\<lparr>slot := Some w\<rparr>
              else s)
         | S_Crit i wake \<Rightarrow> (if wake \<le> now s then finish_iteration w i s else s)
         | S_Done \<Rightarrow> s)
      else s)"

text \<open>Time passes (by \<open>d \<ge> 0\<close>: the clock does not go back), or a worker takes a step.\<close>

fun sim_apply :: "sim_cfg \<Rightarrow> sim_action \<Rightarrow> sim_state \<Rightarrow> sim_state" where
  "sim_apply cfg (Step w) s = sim_step cfg w s"
| "sim_apply cfg (Tick d) s = (if 0 \<le> d then s\<lparr>now := now s + d\<rparr> else s)"

fun sim_run :: "sim_cfg \<Rightarrow> sim_action list \<Rightarrow> sim_state \<Rightarrow> sim_state" where
  "sim_run cfg [] s = s"
| "sim_run cfg (a # as) s = sim_run cfg as (sim_apply cfg a s)"

definition sim_final :: "sim_state \<Rightarrow> bool" where
  "sim_final s = list_all (\<lambda>k. pc k = S_Done) (workers s)"

fun in_critical :: "sim_pc \<Rightarrow> bool" where
  "in_critical (S_Crit i wake) = True"
| "in_critical p = False"

definition occupies_slot :: "sim_state \<Rightarrow> nat \<Rightarrow> bool" where
  "occupies_slot s w = in_critical (pc (workers s ! w))"

text \<open>
  The wall time \<^verbatim>\<open>t1 - t0\<close> of a run whose region was entered at time \<open>t0\<close> and whose
  clock is read again in state \<open>s\<close>, after the region.
\<close>

definition wall_ms :: "real \<Rightarrow> sim_state \<Rightarrow> real" where
  "wall_ms t0 s = now s - t0"

definition completed :: "sim_state \<Rightarrow> nat" where
  "completed s = length (concat (map visited (workers s)))"

subsection \<open>What holds in every state of the simulator\<close>

text \<open>
  What holds of one worker of the simulator in every state, with \<open>lo\<close> and \<open>hi\<close> the bounds
  of its subrange: the index it stands at lies in the subrange, and it has completed
  exactly the indices of the subrange below that index, in ascending order.
\<close>

fun pc_index :: "int \<Rightarrow> int \<Rightarrow> sim_pc \<Rightarrow> int" where
  "pc_index lo hi S_Single = lo"
| "pc_index lo hi S_Barrier = lo"
| "pc_index lo hi (S_Loop i) = i"
| "pc_index lo hi (S_ParSleep i wake) = i"
| "pc_index lo hi (S_Wait i) = i"
| "pc_index lo hi (S_Crit i wake) = i"
| "pc_index lo hi S_Done = hi"

fun pc_ok :: "int \<Rightarrow> int \<Rightarrow> sim_pc \<Rightarrow> bool" where
  "pc_ok lo hi (S_Loop i) = (lo \<le> i \<and> i \<le> hi)"
| "pc_ok lo hi (S_ParSleep i wake) = (lo \<le> i \<and> i < hi)"
| "pc_ok lo hi (S_Wait i) = (lo \<le> i \<and> i < hi)"
| "pc_ok lo hi (S_Crit i wake) = (lo \<le> i \<and> i < hi)"
| "pc_ok lo hi p = True"

definition worker_ok :: "sim_cfg \<Rightarrow> nat \<Rightarrow> nat \<Rightarrow> sim_worker \<Rightarrow> bool" where
  "worker_ok cfg T w k =
     (pc_ok (chunk_lo (iters cfg) T w) (chunk_hi (iters cfg) T w) (pc k)
      \<and> visited k
          = [chunk_lo (iters cfg) T w
             ..pc_index (chunk_lo (iters cfg) T w) (chunk_hi (iters cfg) T w) (pc k) - 1])"

definition workers_ok :: "sim_cfg \<Rightarrow> sim_state \<Rightarrow> bool" where
  "workers_ok cfg s =
     (\<forall>w<length (workers s). worker_ok cfg (length (workers s)) w (workers s ! w))"

text \<open>The slot is recorded as held by \<open>w\<close> exactly when \<open>w\<close> is inside the critical section.\<close>

definition slot_ok :: "sim_state \<Rightarrow> bool" where
  "slot_ok s = (\<forall>w<length (workers s). in_critical (pc (workers s ! w)) = (slot s = Some w))"

text \<open>
  Time: since the region was entered at \<open>t0\<close>, every completed iteration has taken its
  \<open>serial_ms\<close> in the slot, one after the other, and the worker in the slot stays there
  until its own \<open>serial_ms\<close> have passed as well.
\<close>

fun wake_ok :: "real \<Rightarrow> sim_pc \<Rightarrow> bool" where
  "wake_ok bound (S_Crit i wake) = (bound \<le> wake)"
| "wake_ok bound p = True"

definition time_ok :: "sim_cfg \<Rightarrow> real \<Rightarrow> sim_state \<Rightarrow> bool" where
  "time_ok cfg t0 s =
     (t0 + real (completed s) * serial_ms cfg \<le> now s
      \<and> (\<forall>w<length (workers s).
            wake_ok (t0 + (real (completed s) + 1) * serial_ms cfg) (pc (workers s ! w))))"

definition sim_inv :: "sim_cfg \<Rightarrow> real \<Rightarrow> sim_state \<Rightarrow> bool" where
  "sim_inv cfg t0 s = (workers_ok cfg s \<and> slot_ok s \<and> time_ok cfg t0 s)"

subsection \<open>Runs of the simulator\<close>

text \<open>
  The state of the simulator's region with a team of \<open>T\<close> workers, entered at time \<open>t0\<close>,
  after the actions \<open>acts\<close>.
\<close>

definition contention_run :: "sim_cfg \<Rightarrow> nat \<Rightarrow> real \<Rightarrow> sim_action list \<Rightarrow> sim_state" where
  "contention_run cfg T t0 acts = sim_run cfg acts (sim_init T t0)"

text \<open>A small configuration and two schedules of two workers, for concrete runs.\<close>

definition small_cfg :: sim_cfg where
  "small_cfg = \<lparr>iters = 2, parallel_ms = 2, serial_ms = 5\<rparr>"

definition acts_contended :: "sim_action list" where
  "acts_contended =
     [Step 0, Step 1, Step 0, Step 1, Step 0, Step 1, Tick 2, Step 0, Step 1, Step 0, Step 1]"

definition acts_complete :: "sim_action list" where
  "acts_complete =
     acts_contended @ [Tick 5, Step 0, Step 1, Step 0, Step 0, Tick 5, Step 1, Step 1, Step 1]"

text \<open>
  A schedule in which the simulator's run completes: every worker passes the \<^verbatim>\<open>single\<close>,
  every worker passes the barrier, and then the workers run their subranges one after the
  other, with time passing while a worker sleeps.
\<close>

definition iteration_acts :: "sim_cfg \<Rightarrow> nat \<Rightarrow> sim_action list" where
  "iteration_acts cfg w =
     [Step w, Tick (max 0 (parallel_ms cfg)), Step w, Step w, Tick (max 0 (serial_ms cfg)),
      Step w]"

definition worker_acts :: "sim_cfg \<Rightarrow> nat \<Rightarrow> nat \<Rightarrow> sim_action list" where
  "worker_acts cfg T w =
     concat (map (\<lambda>i. iteration_acts cfg w)
       [chunk_lo (iters cfg) T w..chunk_hi (iters cfg) T w - 1]) @ [Step w]"

definition sim_in_turn :: "sim_cfg \<Rightarrow> nat \<Rightarrow> sim_action list" where
  "sim_in_turn cfg T =
     map Step [0..<T] @ map Step [0..<T] @ concat (map (worker_acts cfg T) [0..<T])"

section \<open>Basic facts\<close>

lemma for_loop_foldl:
  "for_loop body i hi s = foldl (\<lambda>s i. body i s) s [i..hi - 1]"
proof (induction body i hi s rule: for_loop.induct)
  case (1 body i hi s)
  show ?case
  proof (cases "i < hi")
    case True
    then have "[i..hi - 1] = i # [i + 1..hi - 1]"
      by (simp add: upto_rec1)
    with True 1 show ?thesis
      by (simp add: for_loop.simps [of body i hi s])
  next
    case False
    then show ?thesis
      by (simp add: for_loop.simps [of body i hi s])
  qed
qed

lemma for_loop_empty: "hi \<le> i \<Longrightarrow> for_loop body i hi s = s"
  by (simp add: for_loop.simps [of body i hi s])

lemma chunk_hi_eq_lo_Suc: "chunk_hi n T t = chunk_lo n T (Suc t)"
proof -
  define c where "c = max 0 n"
  define q where "q = c div int T"
  define r where "r = c mod int T"
  have "(if int t < r then (q + 1) * int t + (q + 1) else q * int t + r + q) =
        (if int (Suc t) < r then (q + 1) * int (Suc t) else q * int (Suc t) + r)"
  proof (cases "int t < r")
    case True
    show ?thesis
    proof (cases "int (Suc t) < r")
      case True
      with \<open>int t < r\<close> show ?thesis by (simp add: algebra_simps)
    next
      case False
      with \<open>int t < r\<close> have "r = int t + 1" by simp
      with False \<open>int t < r\<close> show ?thesis by (simp add: algebra_simps)
    qed
  next
    case False
    then show ?thesis by (simp add: algebra_simps)
  qed
  then show ?thesis
    unfolding chunk_hi_def chunk_lo_def Let_def c_def q_def r_def .
qed

lemma chunk_lo_0: "chunk_lo n T 0 = 0"
proof -
  have "0 \<le> max 0 n mod int T"
    by (cases "T = 0") simp_all
  then show ?thesis
    by (auto simp: chunk_lo_def Let_def)
qed

lemma chunk_lo_T: "0 < T \<Longrightarrow> chunk_lo n T T = max 0 n"
proof -
  assume "0 < T"
  then have "max 0 n mod int T < int T" by simp
  then have "\<not> int T < max 0 n mod int T" by simp
  then show ?thesis
    by (simp add: chunk_lo_def Let_def mult.commute)
qed

lemma chunk_lo_le_hi: "chunk_lo n T t \<le> chunk_hi n T t"
proof -
  have "0 \<le> max 0 n div int T"
    by (simp add: pos_imp_zdiv_nonneg_iff div_int_pos_iff)
  then show ?thesis
    by (simp add: chunk_lo_def chunk_hi_def Let_def)
qed

section \<open>The static schedule covers the range\<close>

lemma foldl_snoc_collect: "foldl (\<lambda>vs i. vs @ [i]) acc xs = acc @ xs"
  by (induction xs arbitrary: acc) simp_all

lemma worker_indices_upto: "worker_indices n T t = [chunk_lo n T t..chunk_lo n T (Suc t) - 1]"
  by (simp add: worker_indices_def for_loop_foldl foldl_snoc_collect chunk_hi_eq_lo_Suc)

lemma chunk_lo_Suc_mono: "chunk_lo n T t \<le> chunk_lo n T (Suc t)"
  using chunk_lo_le_hi [of n T t] by (simp add: chunk_hi_eq_lo_Suc)

lemma chunk_lo_0_le: "0 \<le> chunk_lo n T k"
proof (induction k)
  case 0
  show ?case by (simp add: chunk_lo_0)
next
  case (Suc k)
  with chunk_lo_Suc_mono [of n T k] show ?case by linarith
qed

lemma upto_append_adjacent:
  fixes i j k :: int
  assumes "i \<le> j" "j \<le> k"
  shows "[i..j - 1] @ [j..k - 1] = [i..k - 1]"
proof (cases "j = k")
  case True
  then show ?thesis by simp
next
  case False
  with assms have "j \<le> k - 1" by simp
  with assms(1) show ?thesis
    by (simp add: upto_split1 [of i j "k - 1"])
qed

lemma concat_chunks_prefix:
  "concat (map (worker_indices n T) [0..<k]) = [0..chunk_lo n T k - 1]"
proof (induction k)
  case 0
  show ?case by (simp add: chunk_lo_0)
next
  case (Suc k)
  have "[0..chunk_lo n T k - 1] @ [chunk_lo n T k..chunk_lo n T (Suc k) - 1]
        = [0..chunk_lo n T (Suc k) - 1]"
    by (rule upto_append_adjacent) (rule chunk_lo_0_le, rule chunk_lo_Suc_mono)
  with Suc show ?case
    by (simp add: worker_indices_upto)
qed

lemma upto_max0: "[0..max 0 n - 1] = [0..n - (1::int)]"
  by (cases "0 \<le> n") (simp_all add: max_def)

lemma concat_chunks: "0 < T \<Longrightarrow> concat (map (worker_indices n T) [0..<T]) = [0..n - 1]"
  by (simp add: concat_chunks_prefix chunk_lo_T upto_max0)

section \<open>The reduction in exact arithmetic\<close>

lemma foldl_add_sum_list: "foldl (+) (a::real) xs = a + sum_list xs"
  by (induction xs arbitrary: a) (simp_all add: add.assoc)

lemma partial_sum_foldl:
  "partial_sum A n T t = foldl (dadd A) (dzero A) (map (cos_term A) (worker_indices n T t))"
  by (simp add: partial_sum_def for_loop_foldl worker_indices_upto chunk_hi_eq_lo_Suc foldl_map)



lemma sum_list_team_order:
  fixes g :: "nat \<Rightarrow> 'a::comm_monoid_add"
  assumes "team_order T order"
  shows "sum_list (map g order) = sum_list (map g [0..<T])"
proof -
  from assms have d: "distinct order" and s: "set order = set [0..<T]"
    by (simp_all add: team_order_def lessThan_atLeast0)
  have "sum_list (map g order) = sum g (set order)"
    using d by (rule sum_list_distinct_conv_sum_set)
  also have "\<dots> = sum g (set [0..<T])"
    by (simp only: s)
  also have "\<dots> = sum_list (map g [0..<T])"
    by (rule sum_list_distinct_conv_sum_set [symmetric]) simp
  finally show ?thesis .
qed

lemma mset_concat_team_order:
  assumes "team_order T order"
  shows "mset (concat (map f order)) = mset (concat (map f [0..<T]))"
  using sum_list_team_order [OF assms, of "\<lambda>t. mset (f t)"]
  by (simp add: mset_concat comp_def)


lemma sum_list_upto_set: "sum_list (map f [0..n - 1]) = (\<Sum>i\<in>{0..<n::int}. (f i :: real))"
proof -
  have "sum_list (map f [0..n - 1]) = sum f (set [0..n - 1])"
    by (rule sum_list_distinct_conv_sum_set) simp
  also have "set [0..n - 1] = {0..<n}"
    by auto
  finally show ?thesis .
qed










section \<open>The reduction in floating point\<close>














lemma tolerance_nonneg: "0 \<le> u \<Longrightarrow> 0 \<le> tolerance u n T"
  by (simp add: tolerance_def)











section \<open>The serial workload\<close>

lemma serial_work_foldl:
  "serial_work A n = foldl (dadd A) (dzero A) (map (sin_term A) [0..n - 1])"
  by (simp add: serial_work_def for_loop_foldl foldl_map)

lemma sin_term_real: "sin_term real_arith i = sin (real_of_int i / 1000000)"
  by (simp add: sin_term_def real_arith_def)

text \<open>
  C2. \<^verbatim>\<open>serial_work(n)\<close> adds \<open>sin (i * 1e-6)\<close> for \<open>i = 0, 1, \<dots>, n - 1\<close> to one
  accumulator, in ascending order of \<open>i\<close>, whatever the arithmetic of the carrier; in exact
  arithmetic the value is the sum of the terms. The function takes no team and no order of
  combination, and the value \<open>a\<close> of the Amdahl run is the same for every team.
\<close>

theorem serial_work_in_order:
  "serial_work A n = foldl (dadd A) (dzero A) (map (sin_term A) [0..n - 1])
   \<and> serial_work real_arith n = (\<Sum>i\<in>{0..<n}. sin (real_of_int i / 1000000))
   \<and> rep_a (amdahl_main A T order) = serial_work A Nserial
   \<and> rep_a (amdahl_main A T order) = rep_a (amdahl_main A T' order')"
proof -
  have "serial_work real_arith n = sum_list (map (sin_term real_arith) [0..n - 1])"
    by (simp add: serial_work_foldl foldl_add_sum_list real_arith_def)
  then have "serial_work real_arith n = (\<Sum>i\<in>{0..<n}. sin (real_of_int i / 1000000))"
    by (simp add: sum_list_upto_set sin_term_real)
  then show ?thesis
    by (simp add: serial_work_foldl amdahl_main_def)
qed

section \<open>Empty ranges\<close>

lemma chunk_empty_range: "n \<le> 0 \<Longrightarrow> chunk_hi n T t \<le> chunk_lo n T t"
  by (simp add: chunk_lo_def chunk_hi_def Let_def max_def)

lemma partial_sum_empty: "n \<le> 0 \<Longrightarrow> partial_sum A n T t = dzero A"
  by (simp add: partial_sum_def for_loop_empty chunk_empty_range)

lemma foldl_zeros:
  "dadd A (dzero A) (dzero A) = dzero A \<Longrightarrow>
   foldl (dadd A) (dzero A) (map (\<lambda>t. dzero A) ts) = dzero A"
  by (induction ts) simp_all

text \<open>
  C10. For \<open>n \<le> 0\<close> both loops run no iteration: \<^verbatim>\<open>serial_work(n)\<close> returns its initial
  \<open>0.0\<close>, and \<^verbatim>\<open>parallel_work(n)\<close> returns the sum of the workers' untouched private
  copies, which is \<open>0.0\<close> in every arithmetic where \<open>0.0 + 0.0 = 0.0\<close> (as in floating
  point).
\<close>

theorem empty_range_is_zero:
  assumes "dadd A (dzero A) (dzero A) = dzero A" and "n \<le> 0"
  shows "serial_work A n = dzero A \<and> parallel_work A T order n = dzero A"
proof -
  from assms(2) have "serial_work A n = dzero A"
    by (simp add: serial_work_def for_loop_empty)
  moreover from assms(2) have "map (partial_sum A n T) order = map (\<lambda>t. dzero A) order"
    by (simp add: partial_sum_empty)
  then have "parallel_work A T order n = foldl (dadd A) (dzero A) (map (\<lambda>t. dzero A) order)"
    unfolding parallel_work_def by (rule arg_cong)
  with assms(1) have "parallel_work A T order n = dzero A"
    by (simp only: foldl_zeros)
  ultimately show ?thesis by simp
qed

theorem empty_range_is_zero_witness:
  "dadd real_arith (dzero real_arith) (dzero real_arith) = dzero real_arith \<and> (-3::int) \<le> 0
   \<and> serial_work real_arith (-3) = 0 \<and> parallel_work real_arith 2 [1, 0] (-3) = 0
   \<and> serial_work real_arith 0 = 0 \<and> parallel_work real_arith 2 [1, 0] 0 = 0"
proof -
  have h1: "dadd real_arith (dzero real_arith) (dzero real_arith) = dzero real_arith"
    by (simp add: real_arith_def)
  have h2: "(-3::int) \<le> 0" by simp
  have h3: "(0::int) \<le> 0" by simp
  have z: "dzero real_arith = 0" by (simp add: real_arith_def)
  from empty_range_is_zero [OF h1 h2, of 2 "[1, 0]"] empty_range_is_zero [OF h1 h3, of 2 "[1, 0]"] h1 h2 z
  show ?thesis by simp
qed

section \<open>Regions and the timer of a run\<close>

text \<open>
  C6, as stated, at the Amdahl run: it enters two parallel regions, and the spec's state
  machine refuses the second.
\<close>

theorem amdahl_enters_two_regions:
  "\<not> (regions_entered amdahl_events = 1
      \<and> run_trace False NotStarted amdahl_events = Some Reported)"
  by (simp add: regions_entered_def amdahl_events_def)

text \<open>
  C6, amended. The contention run enters exactly one parallel region and goes through
  \<open>NotStarted\<close>, \<open>Running\<close>, \<open>Joined\<close>, \<open>Reported\<close>. The Amdahl run enters two
  regions one after the other, the first to read the number of threads and the second for
  the parallel workload; each is joined before anything else happens, and the report
  follows the last join.
\<close>

theorem runs_enter_regions_in_sequence:
  "regions_entered mutex_events = 1
   \<and> run_trace False NotStarted mutex_events = Some Reported
   \<and> regions_entered amdahl_events = 2
   \<and> filter is_region_event amdahl_events
       = [Fork CountThreads, Join CountThreads, Fork ParallelFor, Join ParallelFor]
   \<and> run_trace True NotStarted amdahl_events = Some Reported"
  by (simp add: regions_entered_def amdahl_events_def mutex_events_def)

text \<open>
  C7, as stated, at the Amdahl run: not every parallel region of the run lies between the
  two readings of the clock, and the clock that is read is not one that is promised to be
  monotonic.
\<close>

theorem amdahl_timer_not_as_claimed:
  "\<not> timer_spans_regions amdahl_events \<and> \<not> monotonic_by_contract amdahl_clock"
  by (simp add: timer_spans_regions_def timed_span_def amdahl_events_def amdahl_clock_def)

text \<open>
  C7, amended. The elapsed time is the difference of two readings of
  \<^verbatim>\<open>high_resolution_clock\<close>. In both runs the first reading is taken before the region of
  the workload is entered and the second after that region has been joined, so the whole
  workload region (and, in the Amdahl run, the serial call) lies in the timed span, and on
  a monotonic clock the elapsed time is not negative and not less than the time from the
  start of the workload to the join of its region. The region in which the Amdahl run
  reads the number of threads comes before the first reading and is not timed.
\<close>

theorem timer_spans_workload_region:
  "timer_spans_regions mutex_events
   \<and> timed_span mutex_events = [Fork Simulator, Join Simulator]
   \<and> timed_span amdahl_events = [SerialCall, Fork ParallelFor, Join ParallelFor]
   \<and> before_timer amdahl_events = [Fork CountThreads, Join CountThreads]
   \<and> amdahl_clock = HighResolutionClock \<and> mutex_clock = HighResolutionClock
   \<and> elapsed reading mutex_events = Some (reading 3 - reading 0)
   \<and> elapsed reading amdahl_events = Some (reading 6 - reading 2)
   \<and> (monotonic reading \<longrightarrow>
        (\<exists>w. elapsed reading mutex_events = Some w \<and> 0 \<le> w
           \<and> reading (position (Join Simulator) mutex_events)
               - reading (position (Fork Simulator) mutex_events) \<le> w)
        \<and> (\<exists>w. elapsed reading amdahl_events = Some w \<and> 0 \<le> w
           \<and> reading (position (Join ParallelFor) amdahl_events)
               - reading (position SerialCall amdahl_events) \<le> w
           \<and> reading (position (Join ParallelFor) amdahl_events)
               - reading (position (Fork ParallelFor) amdahl_events) \<le> w))"
proof -
  have em: "elapsed reading mutex_events = Some (reading 3 - reading 0)"
    by (simp add: elapsed_def mutex_events_def eval_nat_numeral)
  have ea: "elapsed reading amdahl_events = Some (reading 6 - reading 2)"
    by (simp add: elapsed_def amdahl_events_def eval_nat_numeral)
  have pm: "position (Fork Simulator) mutex_events = 1" "position (Join Simulator) mutex_events = 2"
    by (simp_all add: position_def mutex_events_def)
  have pa: "position SerialCall amdahl_events = 3" "position (Fork ParallelFor) amdahl_events = 4"
    "position (Join ParallelFor) amdahl_events = 5"
    by (simp_all add: position_def amdahl_events_def)
  have mono: "reading j \<le> reading k" if "monotonic reading" and "j \<le> k" for j k
    using that by (simp add: monotonic_def)
  have m: "0 \<le> reading 3 - reading 0 \<and> reading 2 - reading 1 \<le> reading 3 - reading 0"
    if "monotonic reading"
    using mono [OF that, of 0 1] mono [OF that, of 2 3] mono [OF that, of 0 3] by simp
  have a: "0 \<le> reading 6 - reading 2 \<and> reading 5 - reading 3 \<le> reading 6 - reading 2
      \<and> reading 5 - reading 4 \<le> reading 6 - reading 2"
    if "monotonic reading"
    using mono [OF that, of 2 3] mono [OF that, of 2 4] mono [OF that, of 5 6]
      mono [OF that, of 2 6] by simp
  have s: "timer_spans_regions mutex_events
   \<and> timed_span mutex_events = [Fork Simulator, Join Simulator]
   \<and> timed_span amdahl_events = [SerialCall, Fork ParallelFor, Join ParallelFor]
   \<and> before_timer amdahl_events = [Fork CountThreads, Join CountThreads]"
    by (simp add: timer_spans_regions_def timed_span_def before_timer_def
        amdahl_events_def mutex_events_def)
  from s em ea m a show ?thesis
    by (simp add: pm pa amdahl_clock_def mutex_clock_def)
qed

theorem timer_spans_workload_region_witness:
  "monotonic real
   \<and> elapsed real mutex_events = Some 3
   \<and> elapsed real amdahl_events = Some 4
   \<and> real (position (Join Simulator) mutex_events)
       - real (position (Fork Simulator) mutex_events) = 1
   \<and> real (position (Join ParallelFor) amdahl_events)
       - real (position SerialCall amdahl_events) = 2
   \<and> real (position (Join Simulator) mutex_events)
       - real (position (Fork Simulator) mutex_events) \<le> 3"
proof -
  have h: "monotonic real" by (simp add: monotonic_def)
  have p: "real (position (Join Simulator) mutex_events)
       - real (position (Fork Simulator) mutex_events) = 1"
    "real (position (Join ParallelFor) amdahl_events)
       - real (position SerialCall amdahl_events) = 2"
    by (simp_all add: position_def mutex_events_def amdahl_events_def)
  note th = timer_spans_workload_region [of real]
  from th have "elapsed real mutex_events = Some (real 3 - real 0)"
    and "elapsed real amdahl_events = Some (real 6 - real 2)"
    by blast+
  then have e: "elapsed real mutex_events = Some 3" "elapsed real amdahl_events = Some 4"
    by simp_all
  from th h obtain w where "elapsed real mutex_events = Some w"
    and "real (position (Join Simulator) mutex_events)
       - real (position (Fork Simulator) mutex_events) \<le> w"
    by blast
  with e have "real (position (Join Simulator) mutex_events)
       - real (position (Fork Simulator) mutex_events) \<le> 3"
    by simp
  with h p e show ?thesis by simp
qed

section \<open>The probe run: what holds in every state\<close>

lemma hello_inv_init: "hello_inv T (hello_init T)"
  by (simp add: hello_inv_def hello_init_def)

lemma hello_pc_ok_other:
  "hello_pc_ok T sl v p \<Longrightarrow> sl \<noteq> Some v \<Longrightarrow> v \<noteq> w \<Longrightarrow> hello_pc_ok T (Some w) v p"
  by (cases p) simp_all

lemma hello_pc_ok_free:
  "hello_pc_ok T (Some w) v p \<Longrightarrow> v \<noteq> w \<Longrightarrow> hello_pc_ok T None v p"
  by (cases p) simp_all

lemma done_set_update_other:
  "ps ! w \<noteq> H_Done \<Longrightarrow> p \<noteq> H_Done \<Longrightarrow>
   {v. v < length ps \<and> ps[w := p] ! v = H_Done} = {v. v < length ps \<and> ps ! v = H_Done}"
  by (cases "w < length ps") (auto simp: nth_list_update)

lemma done_set_update_done:
  "w < length ps \<Longrightarrow>
   {v. v < length ps \<and> ps[w := H_Done] ! v = H_Done}
   = insert w {v. v < length ps \<and> ps ! v = H_Done}"
  by (auto simp: nth_list_update split: if_splits)

lemma hello_inv_step:
  assumes "hello_inv T s"
  shows "hello_inv T (hello_step w s)"
proof (cases "w < length (h_pcs s)")
  case False
  with assms show ?thesis by (simp add: hello_step_def)
next
  case True
  from assms have len: "length (h_pcs s) = T"
    and ok: "\<And>v. v < T \<Longrightarrow> hello_pc_ok T (h_slot s) v (h_pcs s ! v)"
    and dist: "distinct (map fst (h_out s))"
    and outs: "set (map fst (h_out s)) = {w. w < T \<and> h_pcs s ! w = H_Done}"
    and nthr: "\<forall>p\<in>set (h_out s). snd p = T"
    by (simp_all add: hello_inv_def)
  from True len have wT: "w < T" by simp
  show ?thesis
  proof (cases "h_pcs s ! w")
    case H_Start
    have "hello_step w s = s\<lparr>h_pcs := (h_pcs s)[w := H_Ready w T]\<rparr>"
      using True H_Start len by (simp add: hello_step_def)
    moreover have "hello_inv T (s\<lparr>h_pcs := (h_pcs s)[w := H_Ready w T]\<rparr>)"
      unfolding hello_inv_def
    proof (intro conjI allI impI)
      fix v assume "v < T"
      with ok [of v] ok [of w] H_Start wT len
      show "hello_pc_ok T (h_slot (s\<lparr>h_pcs := (h_pcs s)[w := H_Ready w T]\<rparr>)) v
              (h_pcs (s\<lparr>h_pcs := (h_pcs s)[w := H_Ready w T]\<rparr>) ! v)"
        by (cases "v = w") simp_all
    next
      show "set (map fst (h_out (s\<lparr>h_pcs := (h_pcs s)[w := H_Ready w T]\<rparr>)))
            = {v. v < T \<and> h_pcs (s\<lparr>h_pcs := (h_pcs s)[w := H_Ready w T]\<rparr>) ! v = H_Done}"
        using outs H_Start done_set_update_other [of "h_pcs s" w "H_Ready w T"] len by simp
    qed (use len dist nthr in simp_all)
    ultimately show ?thesis by simp
  next
    case (H_Ready tid nthr')
    show ?thesis
    proof (cases "h_slot s = None")
      case False
      with True H_Ready assms show ?thesis by (auto simp: hello_step_def)
    next
      case free: True
      let ?s' = "s\<lparr>h_pcs := (h_pcs s)[w := H_Critical tid nthr'], h_slot := Some w\<rparr>"
      have "hello_step w s = ?s'"
        using True H_Ready free by (simp add: hello_step_def)
      moreover have "hello_inv T ?s'"
        unfolding hello_inv_def
      proof (intro conjI allI impI)
        fix v assume "v < T"
        show "hello_pc_ok T (h_slot ?s') v (h_pcs ?s' ! v)"
        proof (cases "v = w")
          case True
          with ok [of w] H_Ready wT len show ?thesis by simp
        next
          case False
          with ok [of v] \<open>v < T\<close> free len show ?thesis
            by (simp add: hello_pc_ok_other)
        qed
      next
        show "set (map fst (h_out ?s')) = {v. v < T \<and> h_pcs ?s' ! v = H_Done}"
          using outs H_Ready done_set_update_other [of "h_pcs s" w "H_Critical tid nthr'"] len
          by simp
      qed (use len dist nthr in simp_all)
      ultimately show ?thesis by simp
    qed
  next
    case (H_Critical tid nthr')
    let ?s' = "s\<lparr>h_pcs := (h_pcs s)[w := H_Done], h_slot := None,
                 h_out := h_out s @ [(tid, nthr')]\<rparr>"
    from ok [of w] wT H_Critical have tid: "tid = w" and nt: "nthr' = T"
      and held: "h_slot s = Some w" by simp_all
    have "hello_step w s = ?s'"
      using True H_Critical by (simp add: hello_step_def)
    moreover have "hello_inv T ?s'"
      unfolding hello_inv_def
    proof (intro conjI allI impI)
      fix v assume "v < T"
      show "hello_pc_ok T (h_slot ?s') v (h_pcs ?s' ! v)"
      proof (cases "v = w")
        case True
        with wT len show ?thesis by simp
      next
        case False
        with ok [of v] \<open>v < T\<close> held len show ?thesis
          by (simp add: hello_pc_ok_free)
      qed
    next
      have "w \<notin> set (map fst (h_out s))"
        using outs H_Critical by simp
      with dist tid show "distinct (map fst (h_out ?s'))" by simp
    next
      show "set (map fst (h_out ?s')) = {v. v < T \<and> h_pcs ?s' ! v = H_Done}"
        using outs tid True done_set_update_done [of w "h_pcs s"] len by simp
    next
      show "\<forall>p\<in>set (h_out ?s'). snd p = T"
        using nthr nt by simp
    qed (use len in simp_all)
    ultimately show ?thesis by simp
  next
    case H_Done
    with True assms show ?thesis by (simp add: hello_step_def)
  qed
qed

lemma hello_inv_run: "hello_inv T s \<Longrightarrow> hello_inv T (hello_run sched s)"
  by (induction sched arbitrary: s) (simp_all add: hello_inv_step)

lemma hello_inv_reachable: "hello_inv T (hello_run sched (hello_init T))"
  by (rule hello_inv_run) (rule hello_inv_init)

lemma hello_inv_mutex:
  assumes "hello_inv T s" "w1 < T" "w2 < T"
    "hello_in_critical (h_pcs s ! w1)" "hello_in_critical (h_pcs s ! w2)"
  shows "w1 = w2"
proof -
  from assms(1,2) have a: "hello_pc_ok T (h_slot s) w1 (h_pcs s ! w1)"
    by (simp add: hello_inv_def)
  from assms(1,3) have b: "hello_pc_ok T (h_slot s) w2 (h_pcs s ! w2)"
    by (simp add: hello_inv_def)
  from a assms(4) have "h_slot s = Some w1" by (cases "h_pcs s ! w1") simp_all
  moreover from b assms(5) have "h_slot s = Some w2" by (cases "h_pcs s ! w2") simp_all
  ultimately show ?thesis by simp
qed

lemma hello_inv_final:
  assumes "hello_inv T s" "hello_final s"
  shows "set (map fst (h_out s)) = {..<T}" and "length (h_out s) = T"
proof -
  from assms have len: "length (h_pcs s) = T"
    and outs: "set (map fst (h_out s)) = {w. w < T \<and> h_pcs s ! w = H_Done}"
    and dist: "distinct (map fst (h_out s))"
    by (simp_all add: hello_inv_def)
  from assms(2) len have "\<And>w. w < T \<Longrightarrow> h_pcs s ! w = H_Done"
    by (simp add: hello_final_def list_all_length)
  with outs show s: "set (map fst (h_out s)) = {..<T}" by auto
  from dist have "card (set (map fst (h_out s))) = length (map fst (h_out s))"
    by (rule distinct_card)
  with s show "length (h_out s) = T" by simp
qed

section \<open>The lines of the probe\<close>

lemma undec_dec: "undec (dec n) = n"
proof (induction n rule: dec.induct)
  case (1 n)
  show ?case
  proof (cases "n < 10")
    case True
    then show ?thesis
      by (simp add: dec.simps [of n] undec_def)
  next
    case False
    with 1 have "undec (dec (n div 10)) = n div 10" by simp
    moreover have "of_char (char_of (48 + n mod 10)) = 48 + n mod 10"
      by simp
    ultimately show ?thesis
      using False by (simp add: dec.simps [of n] undec_def)
  qed
qed

lemma dec_inject: "dec m = dec n \<Longrightarrow> m = n"
  by (metis undec_dec)

lemma hello_line_inject: "hello_line (a, T) = hello_line (b, T) \<Longrightarrow> a = b"
proof -
  assume "hello_line (a, T) = hello_line (b, T)"
  then have "dec a = dec b" by (simp add: hello_line_def)
  then show "a = b" by (rule dec_inject)
qed

lemma hello_lines_distinct:
  assumes "distinct (map fst out)" "\<forall>p\<in>set out. snd p = T"
  shows "distinct (map hello_line out)"
proof -
  have "inj_on hello_line (set out)"
  proof (rule inj_onI)
    fix p q assume p: "p \<in> set out" and q: "q \<in> set out" and eq: "hello_line p = hello_line q"
    from p q assms(2) have "snd p = T" "snd q = T" by simp_all
    with eq have "hello_line (fst p, T) = hello_line (fst q, T)"
      by (metis prod.collapse)
    then have "fst p = fst q" by (rule hello_line_inject)
    with \<open>snd p = T\<close> \<open>snd q = T\<close> show "p = q" by (simp add: prod_eq_iff)
  qed
  moreover from assms(1) have "distinct out" by (simp add: distinct_map)
  ultimately show ?thesis by (simp add: distinct_map)
qed

lemma hello_lines_of_team:
  assumes "\<forall>p\<in>set out. snd p = T"
  shows "map hello_line out = map (\<lambda>k. hello_line (k, T)) (map fst out)"
  using assms by (induction out) (auto simp: prod_eq_iff)

section \<open>A probe run that completes\<close>

lemma hello_run_append: "hello_run (xs @ ys) s = hello_run ys (hello_run xs s)"
  by (induction xs arbitrary: s) simp_all

lemma hello_turn:
  assumes "k < T"
  shows "hello_run [k, k, k]
           \<lparr>h_pcs = replicate k H_Done @ replicate (T - k) H_Start, h_slot = None,
            h_out = map (\<lambda>w. (w, T)) [0..<k]\<rparr>
         = \<lparr>h_pcs = replicate (Suc k) H_Done @ replicate (T - Suc k) H_Start, h_slot = None,
            h_out = map (\<lambda>w. (w, T)) [0..<Suc k]\<rparr>"
proof -
  from assms have r: "replicate (T - k) H_Start = H_Start # replicate (T - Suc k) H_Start"
    by (simp add: Suc_diff_Suc replicate_Suc [symmetric] del: replicate_Suc)
  have l: "length (replicate k H_Done) = k" by simp
  have n: "\<And>p ps. (replicate k H_Done @ p # ps) ! k = p"
    using nth_append_length [of "replicate k H_Done"] by simp
  have u: "\<And>p q ps. (replicate k H_Done @ p # ps)[k := q] = replicate k H_Done @ q # ps"
    using list_update_length [of "replicate k H_Done"] by simp
  have e: "replicate k H_Done @ H_Done # replicate (T - Suc k) H_Start
           = replicate (Suc k) H_Done @ replicate (T - Suc k) H_Start"
    by (simp add: replicate_app_Cons_same)
  from assms show ?thesis
    by (simp add: r hello_step_def n u e)
qed

lemma hello_in_turn_prefix:
  "k \<le> T \<Longrightarrow>
   hello_run (concat (map (\<lambda>w. [w, w, w]) [0..<k])) (hello_init T)
   = \<lparr>h_pcs = replicate k H_Done @ replicate (T - k) H_Start, h_slot = None,
      h_out = map (\<lambda>w. (w, T)) [0..<k]\<rparr>"
proof (induction k)
  case 0
  show ?case by (simp add: hello_init_def)
next
  case (Suc k)
  then have "k < T" and "k \<le> T" by simp_all
  have "hello_run (concat (map (\<lambda>w. [w, w, w]) [0..<Suc k])) (hello_init T)
        = hello_run [k, k, k] (hello_run (concat (map (\<lambda>w. [w, w, w]) [0..<k])) (hello_init T))"
    using hello_run_append [of "concat (map (\<lambda>w. [w, w, w]) [0..<k])" "[k, k, k]"] by simp
  also have "\<dots> = \<lparr>h_pcs = replicate (Suc k) H_Done @ replicate (T - Suc k) H_Start,
                    h_slot = None, h_out = map (\<lambda>w. (w, T)) [0..<Suc k]\<rparr>"
    using Suc.IH [OF \<open>k \<le> T\<close>] hello_turn [OF \<open>k < T\<close>] by simp
  finally show ?case .
qed

lemma hello_in_turn_final: "hello_final (probe_run T (hello_in_turn T))"
  using hello_in_turn_prefix [of T T]
  by (simp add: probe_run_def hello_in_turn_def hello_final_def list_all_iff)

lemma probe_run_inv: "hello_inv T (probe_run T sched)"
  by (simp add: probe_run_def hello_inv_reachable)

section \<open>The probe run: the claims\<close>

text \<open>
  C5. For every team of \<open>T\<close> workers the probe run can complete, and however the workers
  interleave, a completed run has printed exactly \<open>T\<close> lines, all different, each of the
  form \<^verbatim>\<open>Hello from thread k of T\<close>, and the numbers \<open>k\<close> are exactly \<open>0, \<dots>, T - 1\<close>,
  none twice.
\<close>

theorem probe_one_line_per_worker:
  "hello_final (probe_run T (hello_in_turn T))
   \<and> (hello_final (probe_run T sched) \<longrightarrow>
        length (hello_text (probe_run T sched)) = T
        \<and> distinct (hello_text (probe_run T sched))
        \<and> hello_text (probe_run T sched)
            = map (\<lambda>k. hello_line (k, T)) (map fst (h_out (probe_run T sched)))
        \<and> distinct (map fst (h_out (probe_run T sched)))
        \<and> set (map fst (h_out (probe_run T sched))) = {..<T})"
proof (intro conjI impI)
  show "hello_final (probe_run T (hello_in_turn T))"
    by (rule hello_in_turn_final)
next
  let ?s = "probe_run T sched"
  assume fin: "hello_final ?s"
  have inv: "hello_inv T ?s" by (rule probe_run_inv)
  then have d: "distinct (map fst (h_out ?s))" and t: "\<forall>p\<in>set (h_out ?s). snd p = T"
    by (simp_all add: hello_inv_def)
  show "length (hello_text ?s) = T"
    using hello_inv_final(2) [OF inv fin] by (simp add: hello_text_def)
  show "distinct (hello_text ?s)"
    unfolding hello_text_def using d t by (rule hello_lines_distinct)
  show "hello_text ?s = map (\<lambda>k. hello_line (k, T)) (map fst (h_out ?s))"
    unfolding hello_text_def using t by (rule hello_lines_of_team)
  show "distinct (map fst (h_out ?s))" by (rule d)
  show "set (map fst (h_out ?s)) = {..<T}"
    by (rule hello_inv_final(1) [OF inv fin])
qed

lemma probe_run_example:
  "probe_run 2 [0, 1, 1, 0, 1, 0, 0]
   = \<lparr>h_pcs = [H_Done, H_Done], h_slot = None, h_out = [(1, 2), (0, 2)]\<rparr>"
  by (simp add: probe_run_def hello_init_def hello_step_def numeral_2_eq_2)

theorem probe_one_line_per_worker_witness:
  "hello_final (probe_run 2 [0, 1, 1, 0, 1, 0, 0])
   \<and> hello_text (probe_run 2 [0, 1, 1, 0, 1, 0, 0])
       = [''Hello from thread 1 of 2'' @ [CHR 0x0A], ''Hello from thread 0 of 2'' @ [CHR 0x0A]]
   \<and> length (hello_text (probe_run 2 [0, 1, 1, 0, 1, 0, 0])) = 2
   \<and> set (map fst (h_out (probe_run 2 [0, 1, 1, 0, 1, 0, 0]))) = {..<2}"
proof -
  have f: "hello_final (probe_run 2 [0, 1, 1, 0, 1, 0, 0])"
    using probe_run_example by (simp add: hello_final_def)
  have t: "hello_text (probe_run 2 [0, 1, 1, 0, 1, 0, 0])
       = [''Hello from thread 1 of 2'' @ [CHR 0x0A], ''Hello from thread 0 of 2'' @ [CHR 0x0A]]"
    by code_simp
  from f probe_one_line_per_worker [of 2 "[0, 1, 1, 0, 1, 0, 0]"]
  have "length (hello_text (probe_run 2 [0, 1, 1, 0, 1, 0, 0])) = 2
        \<and> set (map fst (h_out (probe_run 2 [0, 1, 1, 0, 1, 0, 0]))) = {..<2}"
    by blast
  with f t show ?thesis
    by blast
qed

lemma hello_report_in_critical:
  assumes "hello_inv T s" and "h_out (hello_step w s) \<noteq> h_out s"
  shows "w < T" and "hello_in_critical (h_pcs s ! w)" and "h_slot s = Some w"
    and "h_out (hello_step w s) = h_out s @ [(w, T)]"
proof -
  have w: "w < length (h_pcs s)"
  proof (rule ccontr)
    assume "\<not> w < length (h_pcs s)"
    then have "hello_step w s = s" by (simp add: hello_step_def)
    with assms(2) show False by simp
  qed
  with assms(1) show wT: "w < T" by (simp add: hello_inv_def)
  from assms(2) w obtain tid nthr where pc: "h_pcs s ! w = H_Critical tid nthr"
    by (cases "h_pcs s ! w") (auto simp: hello_step_def split: if_splits)
  then show "hello_in_critical (h_pcs s ! w)" by simp
  from assms(1) wT have "hello_pc_ok T (h_slot s) w (h_pcs s ! w)"
    by (simp add: hello_inv_def)
  with pc have ok: "tid = w" "nthr = T" "h_slot s = Some w" by simp_all
  from ok show "h_slot s = Some w" by simp
  from w pc ok show "h_out (hello_step w s) = h_out s @ [(w, T)]"
    by (simp add: hello_step_def)
qed

text \<open>
  C8, as stated, at a team of two workers: the completed region has reported twice, once
  for each worker.
\<close>

theorem probe_two_workers_report_twice:
  "hello_final (probe_run 2 [0, 0, 0, 1, 1, 1])
   \<and> length (h_out (probe_run 2 [0, 0, 0, 1, 1, 1])) \<noteq> 1"
  by (simp add: probe_run_def hello_init_def hello_step_def hello_final_def numeral_2_eq_2)

text \<open>
  C8, amended. The probe reports once per worker, not once per region. In every state of
  every run at most one worker is inside the critical section; the output grows only by a
  step of a worker that is inside the critical section and holds it, and it grows by that
  worker's own report \<open>(w, T)\<close>, so every report is written inside the critical section
  and no two are written at once; no worker has reported twice, and a completed region of
  \<open>T\<close> workers has reported \<open>T\<close> times.
\<close>

theorem probe_reports_one_at_a_time:
  "(\<forall>w1<T. \<forall>w2<T.
      hello_in_critical (h_pcs (probe_run T sched) ! w1)
      \<and> hello_in_critical (h_pcs (probe_run T sched) ! w2) \<longrightarrow> w1 = w2)
   \<and> (\<forall>w. h_out (hello_step w (probe_run T sched)) \<noteq> h_out (probe_run T sched) \<longrightarrow>
         w < T
         \<and> hello_in_critical (h_pcs (probe_run T sched) ! w)
         \<and> h_slot (probe_run T sched) = Some w
         \<and> h_out (hello_step w (probe_run T sched)) = h_out (probe_run T sched) @ [(w, T)])
   \<and> distinct (map fst (h_out (probe_run T sched)))
   \<and> (hello_final (probe_run T sched) \<longrightarrow> length (h_out (probe_run T sched)) = T)"
proof -
  have inv: "hello_inv T (probe_run T sched)" by (rule probe_run_inv)
  then have "distinct (map fst (h_out (probe_run T sched)))"
    by (simp add: hello_inv_def)
  with hello_inv_mutex [OF inv] hello_inv_final(2) [OF inv] hello_report_in_critical [OF inv]
  show ?thesis
    by blast
qed

theorem probe_reports_one_at_a_time_witness:
  "hello_in_critical (h_pcs (probe_run 2 [0, 1, 1, 0]) ! 1)
   \<and> \<not> hello_in_critical (h_pcs (probe_run 2 [0, 1, 1, 0]) ! 0)
   \<and> h_out (hello_step 1 (probe_run 2 [0, 1, 1, 0])) = h_out (probe_run 2 [0, 1, 1, 0]) @ [(1, 2)]
   \<and> h_slot (probe_run 2 [0, 1, 1, 0]) = Some 1
   \<and> hello_final (probe_run 2 [0, 1, 1, 0, 1, 0, 0])
   \<and> length (h_out (probe_run 2 [0, 1, 1, 0, 1, 0, 0])) = 2"
proof -
  have a: "hello_in_critical (h_pcs (probe_run 2 [0, 1, 1, 0]) ! 1)"
    by (simp add: probe_run_def hello_init_def hello_step_def numeral_2_eq_2)
  have b: "\<not> hello_in_critical (h_pcs (probe_run 2 [0, 1, 1, 0]) ! 0)"
    by (simp add: probe_run_def hello_init_def hello_step_def numeral_2_eq_2)
  have c: "h_out (hello_step 1 (probe_run 2 [0, 1, 1, 0])) \<noteq> h_out (probe_run 2 [0, 1, 1, 0])"
    by (simp add: probe_run_def hello_init_def hello_step_def numeral_2_eq_2)
  have f: "hello_final (probe_run 2 [0, 1, 1, 0, 1, 0, 0])"
    by (simp add: probe_run_def hello_init_def hello_step_def hello_final_def numeral_2_eq_2)
  from a b c f probe_reports_one_at_a_time [of 2 "[0, 1, 1, 0]"]
    probe_reports_one_at_a_time [of 2 "[0, 1, 1, 0, 1, 0, 0]"]
  show ?thesis by blast
qed

section \<open>The simulator: what holds in every state\<close>

lemma sim_step_length: "length (workers (sim_step cfg w s)) = length (workers s)"
  by (simp add: sim_step_def set_pc_def finish_iteration_def split: sim_pc.splits)

lemma sim_apply_length: "length (workers (sim_apply cfg a s)) = length (workers s)"
  by (cases a) (simp_all add: sim_step_length)

lemma sim_run_length: "length (workers (sim_run cfg acts s)) = length (workers s)"
  by (induction acts arbitrary: s) (simp_all add: sim_apply_length)

lemma worker_ok_step:
  assumes "worker_ok cfg T w k"
  shows "pc k = S_Single \<Longrightarrow> worker_ok cfg T w (k\<lparr>pc := S_Barrier\<rparr>)"
    and "pc k = S_Barrier \<Longrightarrow> worker_ok cfg T w (k\<lparr>pc := S_Loop (chunk_lo (iters cfg) T w)\<rparr>)"
    and "pc k = S_Loop i \<Longrightarrow> i < chunk_hi (iters cfg) T w \<Longrightarrow>
         worker_ok cfg T w (k\<lparr>pc := S_ParSleep i wake\<rparr>)"
    and "pc k = S_Loop i \<Longrightarrow> \<not> i < chunk_hi (iters cfg) T w \<Longrightarrow>
         worker_ok cfg T w (k\<lparr>pc := S_Done\<rparr>)"
    and "pc k = S_ParSleep i wake' \<Longrightarrow> worker_ok cfg T w (k\<lparr>pc := S_Wait i\<rparr>)"
    and "pc k = S_Wait i \<Longrightarrow> worker_ok cfg T w (k\<lparr>pc := S_Crit i wake\<rparr>)"
    and "pc k = S_Crit i wake' \<Longrightarrow>
         worker_ok cfg T w \<lparr>pc = S_Loop (i + 1), visited = visited k @ [i]\<rparr>"
proof -
  show "pc k = S_Single \<Longrightarrow> worker_ok cfg T w (k\<lparr>pc := S_Barrier\<rparr>)"
    using assms(1) by (simp add: worker_ok_def)
  show "pc k = S_Barrier \<Longrightarrow> worker_ok cfg T w (k\<lparr>pc := S_Loop (chunk_lo (iters cfg) T w)\<rparr>)"
    using assms(1) by (simp add: worker_ok_def chunk_lo_le_hi)
  show "pc k = S_Loop i \<Longrightarrow> i < chunk_hi (iters cfg) T w \<Longrightarrow>
         worker_ok cfg T w (k\<lparr>pc := S_ParSleep i wake\<rparr>)"
    using assms(1) by (simp add: worker_ok_def)
  show "pc k = S_Loop i \<Longrightarrow> \<not> i < chunk_hi (iters cfg) T w \<Longrightarrow>
         worker_ok cfg T w (k\<lparr>pc := S_Done\<rparr>)"
  proof -
    assume p: "pc k = S_Loop i" and n: "\<not> i < chunk_hi (iters cfg) T w"
    with assms(1) have "i = chunk_hi (iters cfg) T w"
      by (simp add: worker_ok_def)
    with p assms(1) show ?thesis by (simp add: worker_ok_def)
  qed
  show "pc k = S_ParSleep i wake' \<Longrightarrow> worker_ok cfg T w (k\<lparr>pc := S_Wait i\<rparr>)"
    using assms(1) by (simp add: worker_ok_def)
  show "pc k = S_Wait i \<Longrightarrow> worker_ok cfg T w (k\<lparr>pc := S_Crit i wake\<rparr>)"
    using assms(1) by (simp add: worker_ok_def)
  show "pc k = S_Crit i wake' \<Longrightarrow>
         worker_ok cfg T w \<lparr>pc = S_Loop (i + 1), visited = visited k @ [i]\<rparr>"
  proof -
    assume p: "pc k = S_Crit i wake'"
    with assms(1) have lo: "chunk_lo (iters cfg) T w \<le> i" and hi: "i < chunk_hi (iters cfg) T w"
      and v: "visited k = [chunk_lo (iters cfg) T w..i - 1]"
      by (simp_all add: worker_ok_def)
    from lo have "[chunk_lo (iters cfg) T w..i] = [chunk_lo (iters cfg) T w..i - 1] @ [i]"
      by (rule upto_rec2)
    with lo hi v show ?thesis by (simp add: worker_ok_def)
  qed
qed

lemma workers_ok_update:
  assumes "workers_ok cfg s" and "w < length (workers s)"
    and "worker_ok cfg (length (workers s)) w k"
    and "workers s' = (workers s)[w := k]"
  shows "workers_ok cfg s'"
  unfolding workers_ok_def
proof (intro allI impI)
  fix v assume "v < length (workers s')"
  with assms(4) have v: "v < length (workers s)" by simp
  show "worker_ok cfg (length (workers s')) v (workers s' ! v)"
  proof (cases "v = w")
    case True
    with assms(2,3,4) show ?thesis by simp
  next
    case False
    with assms(1,4) v show ?thesis by (simp add: workers_ok_def)
  qed
qed

lemma workers_ok_step:
  assumes "workers_ok cfg s"
  shows "workers_ok cfg (sim_step cfg w s)"
proof (cases "w < length (workers s)")
  case False
  with assms show ?thesis by (simp add: sim_step_def)
next
  case True
  let ?k = "workers s ! w"
  let ?T = "length (workers s)"
  from assms True have k: "worker_ok cfg ?T w ?k"
    by (simp add: workers_ok_def)
  note st = worker_ok_step [OF k]
  show ?thesis
  proof (cases "pc ?k")
    case S_Single
    have "workers_ok cfg (set_pc w S_Barrier s)"
      by (rule workers_ok_update [OF assms True st(1) [OF S_Single]]) (simp add: set_pc_def)
    moreover have "workers_ok cfg
        ((set_pc w S_Barrier s)\<lparr>nthreads := length (workers s), single_done := True\<rparr>)"
      by (rule workers_ok_update [OF assms True st(1) [OF S_Single]]) (simp add: set_pc_def)
    ultimately show ?thesis
      using True S_Single by (simp add: sim_step_def)
  next
    case S_Barrier
    have "workers_ok cfg (set_pc w (S_Loop (chunk_lo (iters cfg) ?T w)) s)"
      by (rule workers_ok_update [OF assms True st(2) [OF S_Barrier]]) (simp add: set_pc_def)
    with assms show ?thesis
      using True S_Barrier by (simp add: sim_step_def)
  next
    case (S_Loop i)
    show ?thesis
    proof (cases "i < chunk_hi (iters cfg) ?T w")
      case lt: True
      have "workers_ok cfg (set_pc w (S_ParSleep i (now s + parallel_ms cfg)) s)"
        by (rule workers_ok_update [OF assms True st(3) [OF S_Loop lt]]) (simp add: set_pc_def)
      then show ?thesis
        using True S_Loop lt by (simp add: sim_step_def)
    next
      case ge: False
      have "workers_ok cfg (set_pc w S_Done s)"
        by (rule workers_ok_update [OF assms True st(4) [OF S_Loop ge]]) (simp add: set_pc_def)
      then show ?thesis
        using True S_Loop ge by (simp add: sim_step_def)
    qed
  next
    case (S_ParSleep i wake)
    have "workers_ok cfg (set_pc w (S_Wait i) s)"
      by (rule workers_ok_update [OF assms True st(5) [OF S_ParSleep]]) (simp add: set_pc_def)
    with assms show ?thesis
      using True S_ParSleep by (simp add: sim_step_def)
  next
    case (S_Wait i)
    have "workers_ok cfg ((set_pc w (S_Crit i (now s + serial_ms cfg)) s)\<lparr>slot := Some w\<rparr>)"
      by (rule workers_ok_update [OF assms True st(6) [OF S_Wait]]) (simp add: set_pc_def)
    with assms show ?thesis
      using True S_Wait by (simp add: sim_step_def)
  next
    case (S_Crit i wake)
    have "workers_ok cfg (finish_iteration w i s)"
      by (rule workers_ok_update [OF assms True st(7) [OF S_Crit]])
        (simp add: finish_iteration_def)
    with assms show ?thesis
      using True S_Crit by (simp add: sim_step_def)
  next
    case S_Done
    with assms True show ?thesis by (simp add: sim_step_def)
  qed
qed

lemma slot_ok_step:
  assumes "slot_ok s"
  shows "slot_ok (sim_step cfg w s)"
proof (cases "w < length (workers s)")
  case False
  with assms show ?thesis by (simp add: sim_step_def)
next
  case True
  from assms have a: "\<And>v. v < length (workers s) \<Longrightarrow>
      in_critical (pc (workers s ! v)) = (slot s = Some v)"
    by (simp add: slot_ok_def)
  show ?thesis
  proof (cases "pc (workers s ! w)")
    case S_Single
    with True a [OF True] a show ?thesis
      by (auto simp: slot_ok_def sim_step_def set_pc_def nth_list_update)
  next
    case S_Barrier
    with True a [OF True] a show ?thesis
      by (auto simp: slot_ok_def sim_step_def set_pc_def nth_list_update)
  next
    case (S_Loop i)
    with True a [OF True] a show ?thesis
      by (auto simp: slot_ok_def sim_step_def set_pc_def nth_list_update)
  next
    case (S_ParSleep i wake)
    with True a [OF True] a show ?thesis
      by (auto simp: slot_ok_def sim_step_def set_pc_def nth_list_update)
  next
    case (S_Wait i)
    with True a [OF True] a show ?thesis
      by (auto simp: slot_ok_def sim_step_def set_pc_def nth_list_update)
  next
    case (S_Crit i wake)
    with True a [OF True] a show ?thesis
      by (auto simp: slot_ok_def sim_step_def finish_iteration_def nth_list_update)
  next
    case S_Done
    with True assms show ?thesis
      by (simp add: sim_step_def)
  qed
qed

lemma completed_update:
  assumes "w < length (workers s)" and "workers s' = (workers s)[w := k]"
  shows "completed s' + length (visited (workers s ! w)) = completed s + length (visited k)"
proof -
  have a: "workers s = take w (workers s) @ workers s ! w # drop (Suc w) (workers s)"
    using assms(1) by (rule id_take_nth_drop)
  have b: "workers s' = take w (workers s) @ k # drop (Suc w) (workers s)"
    using assms by (simp add: upd_conv_take_nth_drop)
  have "completed s = length (concat (map visited (take w (workers s))))
          + length (visited (workers s ! w))
          + length (concat (map visited (drop (Suc w) (workers s))))"
    unfolding completed_def by (subst a) simp
  moreover have "completed s' = length (concat (map visited (take w (workers s))))
          + length (visited k)
          + length (concat (map visited (drop (Suc w) (workers s))))"
    unfolding completed_def by (subst b) simp
  ultimately show ?thesis by simp
qed

lemma completed_set_pc: "w < length (workers s) \<Longrightarrow> completed (set_pc w p s) = completed s"
  using completed_update [of w s "set_pc w p s" "(workers s ! w)\<lparr>pc := p\<rparr>"]
  by (simp add: set_pc_def)

lemma completed_finish:
  "w < length (workers s) \<Longrightarrow> completed (finish_iteration w i s) = Suc (completed s)"
  using completed_update [of w s "finish_iteration w i s"
      "\<lparr>pc = S_Loop (i + 1), visited = visited (workers s ! w) @ [i]\<rparr>"]
  by (simp add: finish_iteration_def)

lemma time_ok_set_pc:
  assumes "time_ok cfg t0 s" and "w < length (workers s)"
    and "wake_ok (t0 + (real (completed s) + 1) * serial_ms cfg) p"
  shows "time_ok cfg t0 (set_pc w p s)"
  unfolding time_ok_def
proof (intro conjI allI impI)
  show "t0 + real (completed (set_pc w p s)) * serial_ms cfg \<le> now (set_pc w p s)"
    using assms(1,2) by (simp add: completed_set_pc time_ok_def) (simp add: set_pc_def)
next
  fix v assume "v < length (workers (set_pc w p s))"
  then have v: "v < length (workers s)" by (simp add: set_pc_def)
  show "wake_ok (t0 + (real (completed (set_pc w p s)) + 1) * serial_ms cfg)
          (pc (workers (set_pc w p s) ! v))"
  proof (cases "v = w")
    case True
    with assms(2,3) show ?thesis
      by (simp add: completed_set_pc) (simp add: set_pc_def)
  next
    case False
    with assms(1,2) v show ?thesis
      by (simp add: completed_set_pc time_ok_def) (simp add: set_pc_def)
  qed
qed

lemma time_ok_fields:
  "time_ok cfg t0 (s\<lparr>slot := x\<rparr>) = time_ok cfg t0 s"
  "time_ok cfg t0 (s\<lparr>nthreads := y, single_done := z\<rparr>) = time_ok cfg t0 s"
  by (simp_all add: time_ok_def completed_def)

lemma wake_ok_not_critical: "\<not> in_critical p \<Longrightarrow> wake_ok b p"
  by (cases p) simp_all

lemma time_ok_finish:
  assumes "time_ok cfg t0 s" and "slot_ok s" and "w < length (workers s)"
    and "pc (workers s ! w) = S_Crit i wake" and "wake \<le> now s"
  shows "time_ok cfg t0 (finish_iteration w i s)"
  unfolding time_ok_def
proof (intro conjI allI impI)
  from assms(1,3,4) have "t0 + (real (completed s) + 1) * serial_ms cfg \<le> wake"
    by (auto simp: time_ok_def)
  with assms(5) have "t0 + (real (completed s) + 1) * serial_ms cfg \<le> now s" by simp
  moreover have "now (finish_iteration w i s) = now s"
    by (simp add: finish_iteration_def)
  moreover have "real (completed (finish_iteration w i s)) = real (completed s) + 1"
    using assms(3) by (simp add: completed_finish)
  ultimately show "t0 + real (completed (finish_iteration w i s)) * serial_ms cfg
      \<le> now (finish_iteration w i s)"
    by simp
next
  fix v assume "v < length (workers (finish_iteration w i s))"
  then have v: "v < length (workers s)" by (simp add: finish_iteration_def)
  from assms(2,3,4) have held: "slot s = Some w" by (auto simp: slot_ok_def)
  have "\<not> in_critical (pc (workers (finish_iteration w i s) ! v))"
  proof (cases "v = w")
    case True
    with assms(3) show ?thesis by (simp add: finish_iteration_def)
  next
    case False
    with assms(2) v held have "\<not> in_critical (pc (workers s ! v))"
      by (simp add: slot_ok_def)
    with False show ?thesis by (simp add: finish_iteration_def)
  qed
  then show "wake_ok (t0 + (real (completed (finish_iteration w i s)) + 1) * serial_ms cfg)
      (pc (workers (finish_iteration w i s) ! v))"
    by (rule wake_ok_not_critical)
qed

lemma time_ok_step:
  assumes "time_ok cfg t0 s" and "slot_ok s"
  shows "time_ok cfg t0 (sim_step cfg w s)"
proof (cases "w < length (workers s)")
  case False
  with assms show ?thesis by (simp add: sim_step_def)
next
  case True
  note sp = time_ok_set_pc [OF assms(1) True]
  show ?thesis
  proof (cases "pc (workers s ! w)")
    case S_Single
    with True sp [of S_Barrier] show ?thesis
      by (simp add: sim_step_def time_ok_fields)
  next
    case S_Barrier
    with True assms(1) sp [of "S_Loop (chunk_lo (iters cfg) (length (workers s)) w)"]
    show ?thesis by (simp add: sim_step_def)
  next
    case (S_Loop i)
    with True sp [of "S_ParSleep i (now s + parallel_ms cfg)"] sp [of S_Done]
    show ?thesis by (simp add: sim_step_def)
  next
    case (S_ParSleep i wake)
    with True assms(1) sp [of "S_Wait i"] show ?thesis
      by (simp add: sim_step_def)
  next
    case (S_Wait i)
    from assms(1) have "t0 + real (completed s) * serial_ms cfg \<le> now s"
      by (simp add: time_ok_def)
    then have "wake_ok (t0 + (real (completed s) + 1) * serial_ms cfg)
        (S_Crit i (now s + serial_ms cfg))"
      by (simp add: algebra_simps)
    with True S_Wait assms(1) sp [of "S_Crit i (now s + serial_ms cfg)"] show ?thesis
      by (simp add: sim_step_def time_ok_fields)
  next
    case (S_Crit i wake)
    with True assms time_ok_finish [OF assms True S_Crit] show ?thesis
      by (simp add: sim_step_def)
  next
    case S_Done
    with True assms show ?thesis by (simp add: sim_step_def)
  qed
qed

lemma sim_inv_apply:
  assumes "sim_inv cfg t0 s"
  shows "sim_inv cfg t0 (sim_apply cfg a s)"
proof (cases a)
  case (Step w)
  with assms show ?thesis
    by (simp add: sim_inv_def workers_ok_step slot_ok_step time_ok_step)
next
  case (Tick d)
  show ?thesis
  proof (cases "0 \<le> d")
    case False
    with Tick assms show ?thesis by simp
  next
    case True
    from assms have "workers_ok cfg (s\<lparr>now := now s + d\<rparr>)"
      by (simp add: sim_inv_def workers_ok_def)
    moreover from assms have "slot_ok (s\<lparr>now := now s + d\<rparr>)"
      by (simp add: sim_inv_def slot_ok_def)
    moreover from assms True have "time_ok cfg t0 (s\<lparr>now := now s + d\<rparr>)"
      by (simp add: sim_inv_def time_ok_def completed_def)
    ultimately show ?thesis
      using Tick True by (simp add: sim_inv_def)
  qed
qed

lemma sim_inv_run: "sim_inv cfg t0 s \<Longrightarrow> sim_inv cfg t0 (sim_run cfg acts s)"
  by (induction acts arbitrary: s) (simp_all add: sim_inv_apply)

lemma sim_inv_init: "sim_inv cfg t0 (sim_init T t0)"
  by (simp add: sim_inv_def sim_init_def workers_ok_def worker_ok_def slot_ok_def
      time_ok_def completed_def)

lemma sim_inv_reachable: "sim_inv cfg t0 (sim_run cfg acts (sim_init T t0))"
  by (rule sim_inv_run) (rule sim_inv_init)

lemma sim_reachable_length: "length (workers (sim_run cfg acts (sim_init T t0))) = T"
  by (simp add: sim_run_length sim_init_def)

lemma final_visited:
  assumes "workers_ok cfg s" and "sim_final s" and "length (workers s) = T"
  shows "map visited (workers s) = map (worker_indices (iters cfg) T) [0..<T]"
proof (rule nth_equalityI)
  show "length (map visited (workers s)) = length (map (worker_indices (iters cfg) T) [0..<T])"
    using assms(3) by simp
next
  fix w assume "w < length (map visited (workers s))"
  with assms(3) have w: "w < T" by simp
  with assms(2,3) have "pc (workers s ! w) = S_Done"
    by (simp add: sim_final_def list_all_length)
  moreover from assms(1,3) w have "worker_ok cfg T w (workers s ! w)"
    by (auto simp: workers_ok_def)
  ultimately have "visited (workers s ! w) = worker_indices (iters cfg) T w"
    by (simp add: worker_ok_def worker_indices_upto chunk_hi_eq_lo_Suc)
  with w assms(3) show "map visited (workers s) ! w
      = map (worker_indices (iters cfg) T) [0..<T] ! w"
    by simp
qed

lemma final_concat_visited:
  assumes "workers_ok cfg s" and "sim_final s" and "length (workers s) = T" and "0 < T"
  shows "concat (map visited (workers s)) = [0..iters cfg - 1]"
  using final_visited [OF assms(1,2,3)] concat_chunks [OF assms(4)] by simp

lemma final_completed:
  assumes "workers_ok cfg s" and "sim_final s" and "length (workers s) = T" and "0 < T"
  shows "completed s = nat (iters cfg)"
  using final_concat_visited [OF assms] by (simp add: completed_def)

section \<open>A run of the simulator that completes\<close>

lemma sim_run_append: "sim_run cfg (xs @ ys) s = sim_run cfg ys (sim_run cfg xs s)"
  by (induction xs arbitrary: s) simp_all

lemma step_single:
  assumes "w < length (workers s)" and "pc (workers s ! w) = S_Single"
  shows "map pc (workers (sim_step cfg w s)) = (map pc (workers s))[w := S_Barrier]"
    and "slot (sim_step cfg w s) = slot s"
  using assms by (simp_all add: sim_step_def set_pc_def map_update)

lemma step_barrier:
  assumes "w < length (workers s)" and "pc (workers s ! w) = S_Barrier"
    and "list_all (\<lambda>p. p \<noteq> S_Single) (map pc (workers s))"
  shows "map pc (workers (sim_step cfg w s))
         = (map pc (workers s))[w := S_Loop (chunk_lo (iters cfg) (length (workers s)) w)]"
    and "slot (sim_step cfg w s) = slot s"
  using assms by (simp_all add: sim_step_def set_pc_def map_update list_all_iff)

lemma step_done:
  assumes "w < length (workers s)" and "pc (workers s ! w) = S_Loop i"
    and "\<not> i < chunk_hi (iters cfg) (length (workers s)) w"
  shows "map pc (workers (sim_step cfg w s)) = (map pc (workers s))[w := S_Done]"
    and "slot (sim_step cfg w s) = slot s"
  using assms by (simp_all add: sim_step_def set_pc_def map_update)

lemma run_iteration:
  assumes "w < length (workers s)" and "pc (workers s ! w) = S_Loop i"
    and "i < chunk_hi (iters cfg) (length (workers s)) w" and "slot s = None"
  shows "map pc (workers (sim_run cfg (iteration_acts cfg w) s))
         = (map pc (workers s))[w := S_Loop (i + 1)]"
    and "slot (sim_run cfg (iteration_acts cfg w) s) = None"
  using assms
  by (simp_all add: iteration_acts_def sim_step_def set_pc_def finish_iteration_def map_update)

lemma pcs_update_facts:
  assumes "map pc ws' = (map pc ws)[w := p]" and "w < length ws"
  shows "length ws' = length ws" and "pc (ws' ! w) = p"
proof -
  from assms(1) have "length (map pc ws') = length ((map pc ws)[w := p])" by simp
  then show l: "length ws' = length ws" by simp
  from assms(1) have "map pc ws' ! w = (map pc ws)[w := p] ! w" by simp
  with assms(2) l show "pc (ws' ! w) = p" by simp
qed

lemma run_worker_loop:
  assumes "w < length (workers s)" and "pc (workers s ! w) = S_Loop i"
    and "i \<le> chunk_hi (iters cfg) (length (workers s)) w" and "slot s = None"
    and "hi = chunk_hi (iters cfg) (length (workers s)) w"
  shows "map pc (workers (sim_run cfg
             (concat (map (\<lambda>i. iteration_acts cfg w) [i..hi - 1]) @ [Step w]) s))
           = (map pc (workers s))[w := S_Done]
         \<and> slot (sim_run cfg
             (concat (map (\<lambda>i. iteration_acts cfg w) [i..hi - 1]) @ [Step w]) s) = None"
  using assms
proof (induction "nat (hi - i)" arbitrary: i s)
  case 0
  then have "i = hi" by simp
  with 0 show ?case
    by (simp add: step_done)
next
  case (Suc d)
  let ?s1 = "sim_run cfg (iteration_acts cfg w) s"
  from Suc.hyps(2) have lt: "i < hi" by simp
  then have up: "[i..hi - 1] = i # [i + 1..hi - 1]"
    by (simp add: upto_rec1)
  from lt Suc.prems have lt': "i < chunk_hi (iters cfg) (length (workers s)) w" by simp
  note it = run_iteration [OF Suc.prems(1,2) lt' Suc.prems(4)]
  note f = pcs_update_facts [OF it(1) Suc.prems(1)]
  have d: "d = nat (hi - (i + 1))" using Suc.hyps(2) by simp
  have "map pc (workers (sim_run cfg
             (concat (map (\<lambda>i. iteration_acts cfg w) [i + 1..hi - 1]) @ [Step w]) ?s1))
           = (map pc (workers ?s1))[w := S_Done]
         \<and> slot (sim_run cfg
             (concat (map (\<lambda>i. iteration_acts cfg w) [i + 1..hi - 1]) @ [Step w]) ?s1) = None"
  proof (rule Suc.hyps(1) [OF d])
    show "w < length (workers ?s1)" using f(1) Suc.prems(1) by simp
    show "pc (workers ?s1 ! w) = S_Loop (i + 1)" by (rule f(2))
    show "i + 1 \<le> chunk_hi (iters cfg) (length (workers ?s1)) w"
      using lt' f(1) by simp
    show "slot ?s1 = None" by (rule it(2))
    show "hi = chunk_hi (iters cfg) (length (workers ?s1)) w"
      using Suc.prems(5) f(1) by simp
  qed
  then show ?case
    by (simp add: up sim_run_append it(1))
qed

lemma run_singles:
  "k \<le> T \<Longrightarrow>
   map pc (workers (sim_run cfg (map Step [0..<k]) (sim_init T t0)))
     = replicate k S_Barrier @ replicate (T - k) S_Single
   \<and> slot (sim_run cfg (map Step [0..<k]) (sim_init T t0)) = None"
proof (induction k)
  case 0
  show ?case by (simp add: sim_init_def)
next
  case (Suc k)
  let ?s = "sim_run cfg (map Step [0..<k]) (sim_init T t0)"
  from Suc have pcs: "map pc (workers ?s) = replicate k S_Barrier @ replicate (T - k) S_Single"
    and sl: "slot ?s = None" and k: "k < T"
    by simp_all
  from k have r: "replicate (T - k) S_Single = S_Single # replicate (T - Suc k) S_Single"
    by (simp add: Suc_diff_Suc replicate_Suc [symmetric] del: replicate_Suc)
  have len: "k < length (workers ?s)"
    using k sim_run_length [of cfg "map Step [0..<k]" "sim_init T t0"]
    by (simp add: sim_init_def)
  have "map pc (workers ?s) ! k = S_Single"
    using nth_append_length [of "replicate k S_Barrier"] by (simp add: pcs r)
  with len have at: "pc (workers ?s ! k) = S_Single" by simp
  have "map pc (workers (sim_step cfg k ?s))
        = (replicate k S_Barrier @ S_Single # replicate (T - Suc k) S_Single)[k := S_Barrier]"
    using step_single(1) [OF len at] by (simp add: pcs r)
  also have "\<dots> = replicate k S_Barrier @ S_Barrier # replicate (T - Suc k) S_Single"
    using list_update_length [of "replicate k S_Barrier"] by simp
  also have "\<dots> = replicate (Suc k) S_Barrier @ replicate (T - Suc k) S_Single"
    by (simp add: replicate_app_Cons_same)
  finally show ?case
    using step_single(2) [OF len at] sl by (simp add: sim_run_append)
qed

lemma run_barriers:
  assumes "map pc (workers s) = replicate T S_Barrier" and "slot s = None"
  shows "k \<le> T \<Longrightarrow>
   map pc (workers (sim_run cfg (map Step [0..<k]) s))
     = map (\<lambda>w. S_Loop (chunk_lo (iters cfg) T w)) [0..<k] @ replicate (T - k) S_Barrier
   \<and> slot (sim_run cfg (map Step [0..<k]) s) = None"
proof (induction k)
  case 0
  from assms show ?case by simp
next
  case (Suc k)
  let ?s = "sim_run cfg (map Step [0..<k]) s"
  let ?done = "map (\<lambda>w. S_Loop (chunk_lo (iters cfg) T w)) [0..<k]"
  from Suc have pcs: "map pc (workers ?s) = ?done @ replicate (T - k) S_Barrier"
    and sl: "slot ?s = None" and k: "k < T"
    by simp_all
  from k have r: "replicate (T - k) S_Barrier = S_Barrier # replicate (T - Suc k) S_Barrier"
    by (simp add: Suc_diff_Suc replicate_Suc [symmetric] del: replicate_Suc)
  from assms(1) have "length (map pc (workers s)) = T" by simp
  then have lenT: "length (workers ?s) = T"
    by (simp add: sim_run_length)
  with k have len: "k < length (workers ?s)" by simp
  have dl: "length ?done = k" by simp
  have "map pc (workers ?s) ! k = S_Barrier"
    using nth_append_length [of ?done] by (simp add: pcs r)
  with len have at: "pc (workers ?s ! k) = S_Barrier" by simp
  have all: "list_all (\<lambda>p. p \<noteq> S_Single) (map pc (workers ?s))"
    by (auto simp: pcs list_all_iff)
  have "map pc (workers (sim_step cfg k ?s))
        = (?done @ S_Barrier # replicate (T - Suc k) S_Barrier)
            [k := S_Loop (chunk_lo (iters cfg) T k)]"
    using step_barrier(1) [OF len at all] by (simp add: pcs r lenT)
  also have "\<dots> = ?done @ S_Loop (chunk_lo (iters cfg) T k) # replicate (T - Suc k) S_Barrier"
    using list_update_length [of ?done] by simp
  finally show ?case
    using step_barrier(2) [OF len at all] sl by (simp add: sim_run_append)
qed

lemma run_workers:
  assumes "map pc (workers s) = map (\<lambda>w. S_Loop (chunk_lo (iters cfg) T w)) [0..<T]"
    and "slot s = None"
  shows "k \<le> T \<Longrightarrow>
   map pc (workers (sim_run cfg (concat (map (worker_acts cfg T) [0..<k])) s))
     = replicate k S_Done @ map (\<lambda>w. S_Loop (chunk_lo (iters cfg) T w)) [k..<T]
   \<and> slot (sim_run cfg (concat (map (worker_acts cfg T) [0..<k])) s) = None"
proof (induction k)
  case 0
  from assms show ?case by simp
next
  case (Suc k)
  let ?s = "sim_run cfg (concat (map (worker_acts cfg T) [0..<k])) s"
  let ?f = "\<lambda>w. S_Loop (chunk_lo (iters cfg) T w)"
  from Suc have pcs: "map pc (workers ?s) = replicate k S_Done @ map ?f [k..<T]"
    and sl: "slot ?s = None" and k: "k < T"
    by simp_all
  from k have r: "[k..<T] = k # [Suc k..<T]" by (rule upt_conv_Cons)
  from assms(1) have "length (map pc (workers s)) = T" by simp
  then have lenT: "length (workers ?s) = T"
    by (simp add: sim_run_length)
  with k have len: "k < length (workers ?s)" by simp
  have "map pc (workers ?s) ! k = ?f k"
    using nth_append_length [of "replicate k S_Done"] by (simp add: pcs r)
  with len have at: "pc (workers ?s ! k) = S_Loop (chunk_lo (iters cfg) T k)" by simp
  have le: "chunk_lo (iters cfg) T k \<le> chunk_hi (iters cfg) (length (workers ?s)) k"
    by (simp add: lenT chunk_lo_le_hi)
  have hi: "chunk_hi (iters cfg) T k = chunk_hi (iters cfg) (length (workers ?s)) k"
    by (simp add: lenT)
  note w = run_worker_loop [OF len at le sl hi, folded worker_acts_def]
  have "map pc (workers (sim_run cfg (worker_acts cfg T k) ?s))
        = (replicate k S_Done @ ?f k # map ?f [Suc k..<T])[k := S_Done]"
    using w by (simp add: pcs r)
  also have "\<dots> = replicate k S_Done @ S_Done # map ?f [Suc k..<T]"
    using list_update_length [of "replicate k S_Done"] by simp
  also have "\<dots> = replicate (Suc k) S_Done @ map ?f [Suc k..<T]"
    by (simp add: replicate_app_Cons_same)
  finally show ?case
    using w by (simp add: sim_run_append)
qed

lemma sim_in_turn_final: "sim_final (sim_run cfg (sim_in_turn cfg T) (sim_init T t0))"
proof -
  let ?s1 = "sim_run cfg (map Step [0..<T]) (sim_init T t0)"
  let ?s2 = "sim_run cfg (map Step [0..<T]) ?s1"
  let ?s3 = "sim_run cfg (concat (map (worker_acts cfg T) [0..<T])) ?s2"
  have 1: "map pc (workers ?s1) = replicate T S_Barrier" "slot ?s1 = None"
    using run_singles [of T T cfg t0] by simp_all
  have 2: "map pc (workers ?s2) = map (\<lambda>w. S_Loop (chunk_lo (iters cfg) T w)) [0..<T]"
    "slot ?s2 = None"
    using run_barriers [OF 1, of T cfg] by simp_all
  have 3: "map pc (workers ?s3) = replicate T S_Done"
    using run_workers [OF 2, of T] by simp
  have "list_all (\<lambda>p. p = S_Done) (map pc (workers ?s3))"
    by (simp add: 3 list_all_iff)
  then have "sim_final ?s3"
    by (simp add: sim_final_def list_all_iff)
  then show ?thesis
    by (simp add: sim_in_turn_def sim_run_append)
qed

section \<open>The simulator: the claims\<close>

lemma contention_run_inv: "sim_inv cfg t0 (contention_run cfg T t0 acts)"
  by (simp add: contention_run_def sim_inv_reachable)

lemma contention_run_length: "length (workers (contention_run cfg T t0 acts)) = T"
  by (simp add: contention_run_def sim_reachable_length)

lemma contended_state:
  "contention_run small_cfg 2 0 acts_contended
   = \<lparr>workers = [\<lparr>pc = S_Crit 0 7, visited = []\<rparr>, \<lparr>pc = S_Wait 1, visited = []\<rparr>],
      slot = Some 0, nthreads = 2, single_done = True, now = 2\<rparr>"
  by (simp add: contention_run_def acts_contended_def small_cfg_def sim_init_def sim_step_def
      set_pc_def finish_iteration_def chunk_lo_def chunk_hi_def numeral_2_eq_2)

lemma complete_state:
  "contention_run small_cfg 2 0 acts_complete
   = \<lparr>workers = [\<lparr>pc = S_Done, visited = [0]\<rparr>, \<lparr>pc = S_Done, visited = [1]\<rparr>],
      slot = None, nthreads = 2, single_done = True, now = 12\<rparr>"
  by (simp add: contention_run_def acts_complete_def acts_contended_def small_cfg_def
      sim_init_def sim_step_def set_pc_def finish_iteration_def chunk_lo_def chunk_hi_def
      numeral_2_eq_2)

text \<open>
  C3. In every state of every interleaved execution of the simulator, two different
  workers are never inside the critical section together.
\<close>

theorem slot_holds_one_worker:
  assumes "w1 < T" and "w2 < T" and "w1 \<noteq> w2"
  shows "\<not> (occupies_slot (contention_run cfg T t0 acts) w1
            \<and> occupies_slot (contention_run cfg T t0 acts) w2)"
proof
  let ?s = "contention_run cfg T t0 acts"
  assume both: "occupies_slot ?s w1 \<and> occupies_slot ?s w2"
  have "slot_ok ?s"
    using contention_run_inv [of cfg t0 T acts] by (simp add: sim_inv_def)
  then have held: "\<And>w. w < T \<Longrightarrow> in_critical (pc (workers ?s ! w)) \<Longrightarrow> slot ?s = Some w"
    by (simp add: slot_ok_def contention_run_length)
  from both have "slot ?s = Some w1"
    using held [OF assms(1)] by (simp add: occupies_slot_def)
  moreover from both have "slot ?s = Some w2"
    using held [OF assms(2)] by (simp add: occupies_slot_def)
  ultimately have "w1 = w2" by simp
  with assms(3) show False by simp
qed

theorem slot_holds_one_worker_witness:
  "(0::nat) < 2 \<and> (1::nat) < 2 \<and> (0::nat) \<noteq> 1
   \<and> occupies_slot (contention_run small_cfg 2 0 acts_contended) 0
   \<and> \<not> occupies_slot (contention_run small_cfg 2 0 acts_contended) 1"
proof -
  have h1: "(0::nat) < 2" and h2: "(1::nat) < 2" and h3: "(0::nat) \<noteq> 1" by simp_all
  have a: "occupies_slot (contention_run small_cfg 2 0 acts_contended) 0"
    by (simp add: contended_state occupies_slot_def)
  from a slot_holds_one_worker [OF h1 h2 h3, of small_cfg 0 acts_contended] h1 h2 h3
  show ?thesis by blast
qed

lemma chunk_lo_mono: "t \<le> t' \<Longrightarrow> chunk_lo n T t \<le> chunk_lo n T t'"
  by (rule lift_Suc_mono_le [of "chunk_lo n T"]) (simp_all add: chunk_lo_Suc_mono)

lemma worker_indices_disjoint:
  assumes "i \<in> set (worker_indices n T t)" and "i \<in> set (worker_indices n T t')"
  shows "t = t'"
proof (rule ccontr)
  assume "t \<noteq> t'"
  then consider "Suc t \<le> t'" | "Suc t' \<le> t" by linarith
  then show False
  proof cases
    case 1
    then have "chunk_lo n T (Suc t) \<le> chunk_lo n T t'" by (rule chunk_lo_mono)
    with assms show False by (simp add: worker_indices_upto)
  next
    case 2
    then have "chunk_lo n T (Suc t') \<le> chunk_lo n T t" by (rule chunk_lo_mono)
    with assms show False by (simp add: worker_indices_upto)
  qed
qed

lemma index_has_worker:
  assumes "0 < T" and "0 \<le> i" and "i < n"
  shows "\<exists>t<T. i \<in> set (worker_indices n T t)"
proof -
  from assms(2,3) have "i \<in> set [0..n - 1]" by simp
  with concat_chunks [OF assms(1), of n]
  have "i \<in> set (concat (map (worker_indices n T) [0..<T]))" by simp
  then show ?thesis by auto
qed

lemma cos_term_idx: "cos_term idx_arith i = [i]"
  by (simp add: cos_term_def idx_arith_def)

lemma foldl_append_concat: "foldl (@) acc xss = acc @ concat xss"
  by (induction xss arbitrary: acc) simp_all

lemma partial_sum_idx: "partial_sum idx_arith n T t = worker_indices n T t"
proof -
  have "partial_sum idx_arith n T t
        = foldl (@) [] (map (\<lambda>i. [i]) (worker_indices n T t))"
    using partial_sum_foldl [of idx_arith n T t]
    by (simp add: cos_term_idx [abs_def]) (simp add: idx_arith_def)
  then show ?thesis
    by (simp add: foldl_append_concat)
qed

lemma parallel_work_idx:
  "parallel_work idx_arith T order n = concat (map (partial_sum idx_arith n T) order)"
  by (simp add: parallel_work_def foldl_append_concat) (simp add: idx_arith_def foldl_append_concat)

lemma parallel_work_idx_once:
  assumes "0 < T" and "team_order T order"
  shows "mset (parallel_work idx_arith T order n) = mset [0..n - 1]"
proof -
  have "mset (parallel_work idx_arith T order n)
        = mset (concat (map (worker_indices n T) order))"
    by (simp add: parallel_work_idx partial_sum_idx [abs_def])
  also have "\<dots> = mset (concat (map (worker_indices n T) [0..<T]))"
    using assms(2) by (rule mset_concat_team_order)
  also have "\<dots> = mset [0..n - 1]"
    using assms(1) by (simp add: concat_chunks)
  finally show ?thesis .
qed

text \<open>
  C4. With a team of \<open>T \<ge> 1\<close> workers, any loop bound \<open>n\<close> and any order in which the
  runtime combines the workers, \<^verbatim>\<open>parallel_work\<close> is the combination of one fold per
  worker over that worker's indices. Run on the recording carrier it returns the indices
  whose terms it has added: they are the indices \<open>0, \<dots>, n - 1\<close>, each exactly once, listed
  worker by worker in the runtime's order (so nothing is promised about the order between
  the subranges of different workers), and every index of the range belongs to exactly one
  worker. The simulator's run can complete, and in a completed run every worker has
  completed exactly the indices of its subrange, each once, whatever the interleaving.
\<close>

theorem each_index_exactly_once:
  assumes "1 \<le> T" and "team_order T order"
  shows "parallel_work A T order n
           = foldl (dadd A) (dzero A)
               (map (\<lambda>t. foldl (dadd A) (dzero A)
                      (map (cos_term A) (partial_sum idx_arith n T t))) order)
       \<and> parallel_work idx_arith T order n = concat (map (partial_sum idx_arith n T) order)
       \<and> distinct (parallel_work idx_arith T order n)
       \<and> set (parallel_work idx_arith T order n) = {0..<n}
       \<and> concat (map (partial_sum idx_arith n T) [0..<T]) = [0..n - 1]
       \<and> (\<forall>i. 0 \<le> i \<and> i < n \<longrightarrow> (\<exists>!t. t < T \<and> i \<in> set (partial_sum idx_arith n T t)))
       \<and> sim_final (contention_run cfg T t0 (sim_in_turn cfg T))
       \<and> (sim_final (contention_run cfg T t0 acts) \<longrightarrow>
            map visited (workers (contention_run cfg T t0 acts))
              = map (worker_indices (iters cfg) T) [0..<T]
            \<and> concat (map visited (workers (contention_run cfg T t0 acts)))
              = [0..iters cfg - 1])"
proof (intro conjI allI impI)
  from assms(1) have T: "0 < T" by simp
  show "parallel_work A T order n
           = foldl (dadd A) (dzero A)
               (map (\<lambda>t. foldl (dadd A) (dzero A)
                      (map (cos_term A) (partial_sum idx_arith n T t))) order)"
  proof -
    have "partial_sum A n T
          = (\<lambda>t. foldl (dadd A) (dzero A) (map (cos_term A) (worker_indices n T t)))"
      by (rule ext) (rule partial_sum_foldl)
    then show ?thesis
      by (simp only: parallel_work_def partial_sum_idx)
  qed
  show "parallel_work idx_arith T order n = concat (map (partial_sum idx_arith n T) order)"
    by (rule parallel_work_idx)
  have m: "mset (parallel_work idx_arith T order n) = mset [0..n - 1]"
    using T assms(2) by (rule parallel_work_idx_once)
  from mset_eq_imp_distinct_iff [OF m]
  have "distinct (parallel_work idx_arith T order n) = distinct [0..n - 1]" .
  then show "distinct (parallel_work idx_arith T order n)"
    by (simp only: distinct_upto)
  from m have "set (parallel_work idx_arith T order n) = set [0..n - 1]"
    by (rule mset_eq_setD)
  moreover have "set [0..n - 1] = {0..<n}"
    by auto
  ultimately show "set (parallel_work idx_arith T order n) = {0..<n}"
    by (rule trans)
  show "concat (map (partial_sum idx_arith n T) [0..<T]) = [0..n - 1]"
    using T by (simp add: partial_sum_idx [abs_def] concat_chunks)
  show "\<exists>!t. t < T \<and> i \<in> set (partial_sum idx_arith n T t)" if "0 \<le> i \<and> i < n" for i
  proof -
    from that index_has_worker [OF T, of i n]
    obtain t where "t < T" "i \<in> set (worker_indices n T t)" by blast
    then show ?thesis
      by (auto simp: partial_sum_idx intro: worker_indices_disjoint)
  qed
  show "sim_final (contention_run cfg T t0 (sim_in_turn cfg T))"
    unfolding contention_run_def by (rule sim_in_turn_final)
  let ?s = "contention_run cfg T t0 acts"
  have ok: "workers_ok cfg ?s"
    using contention_run_inv [of cfg t0 T acts] by (simp add: sim_inv_def)
  show "map visited (workers ?s) = map (worker_indices (iters cfg) T) [0..<T]"
    if "sim_final ?s"
    using ok that contention_run_length by (rule final_visited)
  show "concat (map visited (workers ?s)) = [0..iters cfg - 1]" if "sim_final ?s"
    using ok that contention_run_length T by (rule final_concat_visited)
qed

theorem each_index_exactly_once_witness:
  "(1::nat) \<le> 2 \<and> team_order 2 [1, 0]
   \<and> parallel_work idx_arith 2 [1, 0] 5 = [3, 4, 0, 1, 2]
   \<and> distinct (parallel_work idx_arith 2 [1, 0] 5)
   \<and> set (parallel_work idx_arith 2 [1, 0] 5) = {0..<5}
   \<and> sim_final (contention_run small_cfg 2 0 acts_complete)
   \<and> map visited (workers (contention_run small_cfg 2 0 acts_complete)) = [[0], [1]]
   \<and> concat (map visited (workers (contention_run small_cfg 2 0 acts_complete)))
       = [0..iters small_cfg - 1]"
proof -
  have h: "(1::nat) \<le> 2" by simp
  have o: "team_order 2 [1, 0]" by (auto simp: team_order_def)
  have p: "parallel_work idx_arith 2 [1, 0] 5 = [3, 4, 0, 1, 2]"
    by code_simp
  have f: "sim_final (contention_run small_cfg 2 0 acts_complete)"
    by (simp add: complete_state sim_final_def)
  have v: "map visited (workers (contention_run small_cfg 2 0 acts_complete)) = [[0], [1]]"
    by (simp add: complete_state)
  from h o p f v
    each_index_exactly_once [OF h o, of real_arith 5 small_cfg 0 acts_complete]
  show ?thesis by blast
qed

text \<open>
  C9. With a team of \<open>T \<ge> 1\<close> workers the simulator's run can complete, and whatever the
  interleaving and however time passes, the wall time of a completed run is at least
  \<open>iters \<times> serial_ms\<close>; for
  the constants of \<^verbatim>\<open>main\<close> that is 1000 milliseconds. (In the model a sleep never
  returns early and the clock never goes back, so the bound holds without allowance.)
\<close>

theorem contention_floor:
  assumes "1 \<le> T" and "0 \<le> iters cfg"
  shows "sim_final (contention_run cfg T t0 (sim_in_turn cfg T))
       \<and> (sim_final (contention_run cfg T t0 acts) \<longrightarrow>
            real_of_int (iters cfg) * serial_ms cfg
              \<le> wall_ms t0 (contention_run cfg T t0 acts))
       \<and> (sim_final (contention_run main_cfg T t0 acts) \<longrightarrow>
            1000 \<le> wall_ms t0 (contention_run main_cfg T t0 acts))"
proof -
  from assms(1) have T: "0 < T" by simp
  have floor: "real_of_int (iters c) * serial_ms c \<le> wall_ms t0 (contention_run c T t0 acts)"
    if "0 \<le> iters c" and "sim_final (contention_run c T t0 acts)" for c
  proof -
    let ?s = "contention_run c T t0 acts"
    have "sim_inv c t0 ?s" by (rule contention_run_inv)
    then have ok: "workers_ok c ?s" and tm: "time_ok c t0 ?s"
      by (simp_all add: sim_inv_def)
    have "completed ?s = nat (iters c)"
      using ok that(2) contention_run_length T by (rule final_completed)
    with that(1) have "real (completed ?s) = real_of_int (iters c)" by simp
    with tm have "t0 + real_of_int (iters c) * serial_ms c \<le> now ?s"
      by (simp add: time_ok_def)
    then show ?thesis
      by (simp add: wall_ms_def)
  qed
  have "sim_final (contention_run cfg T t0 (sim_in_turn cfg T))"
    unfolding contention_run_def by (rule sim_in_turn_final)
  moreover have "1000 \<le> wall_ms t0 (contention_run main_cfg T t0 acts)"
    if "sim_final (contention_run main_cfg T t0 acts)"
    using floor [of main_cfg] that by (simp add: main_cfg_def)
  ultimately show ?thesis
    using floor [OF assms(2)] by blast
qed

theorem contention_floor_witness:
  "(1::nat) \<le> 2 \<and> 0 \<le> iters small_cfg
   \<and> sim_final (contention_run small_cfg 2 0 acts_complete)
   \<and> wall_ms 0 (contention_run small_cfg 2 0 acts_complete) = 12
   \<and> real_of_int (iters small_cfg) * serial_ms small_cfg
       \<le> wall_ms 0 (contention_run small_cfg 2 0 acts_complete)"
proof -
  have h1: "(1::nat) \<le> 2" by simp
  have h2: "0 \<le> iters small_cfg" by (simp add: small_cfg_def)
  have h3: "sim_final (contention_run small_cfg 2 0 acts_complete)"
    by (simp add: complete_state sim_final_def)
  have w: "wall_ms 0 (contention_run small_cfg 2 0 acts_complete) = 12"
    by (simp add: complete_state wall_ms_def)
  from h1 h2 h3 w contention_floor [OF h1 h2, of 0 acts_complete] show ?thesis by blast
qed

end
